theory Spec2Isabelle
  imports Main "HOL-Library.Log_Nat"
begin

section \<open>Python values as the YAML loader builds them\<close>

text \<open>
  \<^verbatim>\<open>yaml.safe_load\<close> returns \<^verbatim>\<open>None\<close>, a bool, an int, a float, a str, a list or a dict
  whose keys are scalars (the safe loader refuses an unhashable key). A finite float is
  the rational number it denotes; the comparisons of the validator are exact on it.
  A string is a list of characters, one \<^typ>\<open>char\<close> standing for one code point.
  A dict is an association list in insertion order; only lists with pairwise different
  keys stand for a dict. The tagged extras of YAML (dates, binary, sets) are left out.
\<close>

datatype pyfloat = Finite rat | PosInf | NegInf | NaN

datatype scalar = PyNone | PyBool bool | PyInt int | PyFloat pyfloat | PyStr string

datatype pyobj = Atom scalar | PyList "pyobj list" | PyDict "(scalar \<times> pyobj) list"

datatype value_error =
    MissingKeys
  | NailNotPair nat
  | NailOutsideUnitSquare nat
  | BadThreadIndex nat pyobj int
  | UnpackMismatch
  | SquareTooFewNails
  | UnsupportedShape string

datatype exn =
    FileNotFoundError
  | YAMLError
  | ValueError value_error
  | TypeError
  | IndexError
  | KeyError
  | OverflowError

subsection \<open>Comparison, iteration, membership and subscription\<close>

fun int_le_float :: "int \<Rightarrow> pyfloat \<Rightarrow> bool" where
  "int_le_float a (Finite q) = (of_int a \<le> q)"
| "int_le_float a PosInf = True"
| "int_le_float a NegInf = False"
| "int_le_float a NaN = False"

fun float_le_int :: "pyfloat \<Rightarrow> int \<Rightarrow> bool" where
  "float_le_int (Finite q) a = (q \<le> of_int a)"
| "float_le_int PosInf a = False"
| "float_le_int NegInf a = True"
| "float_le_int NaN a = False"

text \<open>\<^verbatim>\<open>a <= x\<close> and \<^verbatim>\<open>x <= a\<close> for an int \<open>a\<close>: a bool counts as 0 or 1, anything that
  is not a number raises TypeError.\<close>

fun int_le_obj :: "int \<Rightarrow> pyobj \<Rightarrow> exn + bool" where
  "int_le_obj a (Atom (PyInt i)) = Inr (a \<le> i)"
| "int_le_obj a (Atom (PyBool b)) = Inr (a \<le> (if b then 1 else 0))"
| "int_le_obj a (Atom (PyFloat f)) = Inr (int_le_float a f)"
| "int_le_obj a (Atom PyNone) = Inl TypeError"
| "int_le_obj a (Atom (PyStr s)) = Inl TypeError"
| "int_le_obj a (PyList xs) = Inl TypeError"
| "int_le_obj a (PyDict kvs) = Inl TypeError"

fun obj_le_int :: "pyobj \<Rightarrow> int \<Rightarrow> exn + bool" where
  "obj_le_int (Atom (PyInt i)) a = Inr (i \<le> a)"
| "obj_le_int (Atom (PyBool b)) a = Inr ((if b then 1 else 0) \<le> a)"
| "obj_le_int (Atom (PyFloat f)) a = Inr (float_le_int f a)"
| "obj_le_int (Atom PyNone) a = Inl TypeError"
| "obj_le_int (Atom (PyStr s)) a = Inl TypeError"
| "obj_le_int (PyList xs) a = Inl TypeError"
| "obj_le_int (PyDict kvs) a = Inl TypeError"

text \<open>The chained comparison \<^verbatim>\<open>0 <= x <= 1\<close>: the second test runs only when the first
  holds.\<close>

definition between_0_1 :: "pyobj \<Rightarrow> exn + bool" where
  "between_0_1 x =
     (case int_le_obj 0 x of
        Inl e \<Rightarrow> Inl e
      | Inr lower \<Rightarrow> if lower then obj_le_int x 1 else Inr False)"

text \<open>\<^verbatim>\<open>isinstance(v, int)\<close> holds of an int and of a bool (bool is a subclass of int);
  \<open>as_index\<close> gives the integer such a value stands for.\<close>

fun as_index :: "pyobj \<Rightarrow> int option" where
  "as_index (Atom (PyInt i)) = Some i"
| "as_index (Atom (PyBool b)) = Some (if b then 1 else 0)"
| "as_index (Atom PyNone) = None"
| "as_index (Atom (PyFloat f)) = None"
| "as_index (Atom (PyStr s)) = None"
| "as_index (PyList xs) = None"
| "as_index (PyDict kvs) = None"

definition isinstance_int :: "pyobj \<Rightarrow> bool" where
  "isinstance_int v = (as_index v \<noteq> None)"

text \<open>Iterating a list gives its elements, a dict its keys, a str its characters; any
  other value is not iterable.\<close>

fun py_iter :: "pyobj \<Rightarrow> exn + pyobj list" where
  "py_iter (PyList xs) = Inr xs"
| "py_iter (PyDict kvs) = Inr (map (\<lambda>kv. Atom (fst kv)) kvs)"
| "py_iter (Atom (PyStr s)) = Inr (map (\<lambda>c. Atom (PyStr [c])) s)"
| "py_iter (Atom PyNone) = Inl TypeError"
| "py_iter (Atom (PyBool b)) = Inl TypeError"
| "py_iter (Atom (PyInt i)) = Inl TypeError"
| "py_iter (Atom (PyFloat f)) = Inl TypeError"

fun py_len :: "pyobj \<Rightarrow> exn + int" where
  "py_len (PyList xs) = Inr (int (length xs))"
| "py_len (PyDict kvs) = Inr (int (length kvs))"
| "py_len (Atom (PyStr s)) = Inr (int (length s))"
| "py_len (Atom PyNone) = Inl TypeError"
| "py_len (Atom (PyBool b)) = Inl TypeError"
| "py_len (Atom (PyInt i)) = Inl TypeError"
| "py_len (Atom (PyFloat f)) = Inl TypeError"

fun py_truthy :: "pyobj \<Rightarrow> bool" where
  "py_truthy (PyList xs) = (xs \<noteq> [])"
| "py_truthy (PyDict kvs) = (kvs \<noteq> [])"
| "py_truthy (Atom (PyStr s)) = (s \<noteq> [])"
| "py_truthy (Atom PyNone) = False"
| "py_truthy (Atom (PyBool b)) = b"
| "py_truthy (Atom (PyInt i)) = (i \<noteq> 0)"
| "py_truthy (Atom (PyFloat f)) = (f \<noteq> Finite 0)"

fun starts_with :: "string \<Rightarrow> string \<Rightarrow> bool" where
  "starts_with s [] = True"
| "starts_with [] (c # cs) = False"
| "starts_with (d # ds) (c # cs) = (d = c \<and> starts_with ds cs)"

fun str_contains :: "string \<Rightarrow> string \<Rightarrow> bool" where
  "str_contains [] sub = (sub = [])"
| "str_contains (d # ds) sub = (starts_with (d # ds) sub \<or> str_contains ds sub)"

text \<open>\<^verbatim>\<open>key in data\<close> for a str \<open>key\<close>: a key of a dict, an element of a list, a
  substring of a str; TypeError on a value that is not a container.\<close>

fun py_contains_str :: "string \<Rightarrow> pyobj \<Rightarrow> exn + bool" where
  "py_contains_str k (PyDict kvs) = Inr (map_of kvs (PyStr k) \<noteq> None)"
| "py_contains_str k (PyList xs) = Inr (List.member xs (Atom (PyStr k)))"
| "py_contains_str k (Atom (PyStr s)) = Inr (str_contains s k)"
| "py_contains_str k (Atom PyNone) = Inl TypeError"
| "py_contains_str k (Atom (PyBool b)) = Inl TypeError"
| "py_contains_str k (Atom (PyInt i)) = Inl TypeError"
| "py_contains_str k (Atom (PyFloat f)) = Inl TypeError"

text \<open>Python's \<^verbatim>\<open>==\<close> on dict keys: numbers compare by value across bool, int and
  float (NaN equals nothing), other scalars only with their own kind.\<close>

fun num_of :: "scalar \<Rightarrow> pyfloat option" where
  "num_of (PyBool b) = Some (Finite (if b then 1 else 0))"
| "num_of (PyInt i) = Some (Finite (of_int i))"
| "num_of (PyFloat f) = Some f"
| "num_of PyNone = None"
| "num_of (PyStr s) = None"

definition py_eq :: "scalar \<Rightarrow> scalar \<Rightarrow> bool" where
  "py_eq a b =
     (case (num_of a, num_of b) of
        (Some x, Some y) \<Rightarrow> x = y \<and> x \<noteq> NaN
      | (None, None) \<Rightarrow> a = b
      | (Some x, None) \<Rightarrow> False
      | (None, Some y) \<Rightarrow> False)"

text \<open>Subscription \<^verbatim>\<open>xs[i]\<close> of a list or a str with an int: positions 0 to
  \<^verbatim>\<open>len(xs) - 1\<close> are read directly, positions \<^verbatim>\<open>-len(xs)\<close> to -1 are read from the
  back, and every other position raises IndexError.\<close>

definition list_index :: "'a list \<Rightarrow> int \<Rightarrow> exn + 'a" where
  "list_index xs i =
     (if 0 \<le> i \<and> i < int (length xs) then Inr (xs ! nat i)
      else if i < 0 \<and> - int (length xs) \<le> i then Inr (xs ! nat (int (length xs) + i))
      else Inl IndexError)"

fun py_getitem :: "pyobj \<Rightarrow> pyobj \<Rightarrow> exn + pyobj" where
  "py_getitem (PyList xs) k =
     (case as_index k of None \<Rightarrow> Inl TypeError | Some i \<Rightarrow> list_index xs i)"
| "py_getitem (PyDict kvs) (Atom k) =
     (case find (\<lambda>kv. py_eq (fst kv) k) kvs of
        None \<Rightarrow> Inl KeyError
      | Some kv \<Rightarrow> Inr (snd kv))"
| "py_getitem (PyDict kvs) (PyList ys) = Inl TypeError"
| "py_getitem (PyDict kvs) (PyDict ys) = Inl TypeError"
| "py_getitem (Atom (PyStr s)) k =
     (case as_index k of
        None \<Rightarrow> Inl TypeError
      | Some i \<Rightarrow> (case list_index s i of Inl e \<Rightarrow> Inl e | Inr c \<Rightarrow> Inr (Atom (PyStr [c]))))"
| "py_getitem (Atom PyNone) k = Inl TypeError"
| "py_getitem (Atom (PyBool b)) k = Inl TypeError"
| "py_getitem (Atom (PyInt i)) k = Inl TypeError"
| "py_getitem (Atom (PyFloat f)) k = Inl TypeError"

text \<open>\<^verbatim>\<open>x, y = obj\<close>: \<open>obj\<close> is iterated and must yield exactly two values.\<close>

definition unpack2 :: "pyobj \<Rightarrow> exn + (pyobj \<times> pyobj)" where
  "unpack2 obj =
     (case py_iter obj of
        Inl e \<Rightarrow> Inl e
      | Inr [x, y] \<Rightarrow> Inr (x, y)
      | Inr _ \<Rightarrow> Inl (ValueError UnpackMismatch))"

section \<open>The loader: \<^verbatim>\<open>load_thread_art\<close>\<close>

text \<open>What \<^verbatim>\<open>open\<close> and \<^verbatim>\<open>yaml.safe_load\<close> make of the path: no such file, a text
  that is not YAML, or the loaded value.\<close>

datatype yaml_file = Missing | Unparsable | Parsed pyobj

text \<open>Lines 25 to 29: the two keys are looked for, then read.\<close>

definition get_fields :: "pyobj \<Rightarrow> exn + (pyobj \<times> pyobj)" where
  "get_fields data =
     (case py_contains_str ''nails'' data of
        Inl e \<Rightarrow> Inl e
      | Inr has_nails \<Rightarrow>
          (case (if \<not> has_nails then Inr True
                 else map_sum id Not (py_contains_str ''thread'' data)) of
             Inl e \<Rightarrow> Inl e
           | Inr absent \<Rightarrow>
               if absent then Inl (ValueError MissingKeys)
               else
                 (case py_getitem data (Atom (PyStr ''nails'')) of
                    Inl e \<Rightarrow> Inl e
                  | Inr nails \<Rightarrow>
                      (case py_getitem data (Atom (PyStr ''thread'')) of
                         Inl e \<Rightarrow> Inl e
                       | Inr thread \<Rightarrow> Inr (nails, thread)))))"

text \<open>Lines 32 to 37, one round of the loop per entry; \<open>i\<close> is the index
  \<^verbatim>\<open>enumerate\<close> counts.\<close>

definition check_nail :: "nat \<Rightarrow> pyobj \<Rightarrow> exn + unit" where
  "check_nail i nail =
     (case nail of
        PyList [x, y] \<Rightarrow>
          (case between_0_1 x of
             Inl e \<Rightarrow> Inl e
           | Inr x_ok \<Rightarrow>
               (case (if x_ok then between_0_1 y else Inr False) of
                  Inl e \<Rightarrow> Inl e
                | Inr ok \<Rightarrow> if \<not> ok then Inl (ValueError (NailOutsideUnitSquare i)) else Inr ()))
      | _ \<Rightarrow> Inl (ValueError (NailNotPair i)))"

fun validate_nails :: "nat \<Rightarrow> pyobj list \<Rightarrow> exn + unit" where
  "validate_nails i [] = Inr ()"
| "validate_nails i (nail # rest) =
     (case check_nail i nail of
        Inl e \<Rightarrow> Inl e
      | Inr u \<Rightarrow> validate_nails (Suc i) rest)"

text \<open>Lines 41 to 43.\<close>

definition bad_index :: "int \<Rightarrow> pyobj \<Rightarrow> bool" where
  "bad_index max_nail_index nail_idx =
     (case as_index nail_idx of
        None \<Rightarrow> True
      | Some t \<Rightarrow> \<not> (0 \<le> t \<and> t \<le> max_nail_index))"

fun validate_thread :: "int \<Rightarrow> nat \<Rightarrow> pyobj list \<Rightarrow> exn + unit" where
  "validate_thread max_nail_index i [] = Inr ()"
| "validate_thread max_nail_index i (nail_idx # rest) =
     (if bad_index max_nail_index nail_idx
      then Inl (ValueError (BadThreadIndex i nail_idx max_nail_index))
      else validate_thread max_nail_index (Suc i) rest)"

definition validate :: "pyobj \<Rightarrow> pyobj \<Rightarrow> exn + unit" where
  "validate nails thread =
     (case py_iter nails of
        Inl e \<Rightarrow> Inl e
      | Inr ns \<Rightarrow>
          (case validate_nails 0 ns of
             Inl e \<Rightarrow> Inl e
           | Inr u \<Rightarrow>
               (case py_len nails of
                  Inl e \<Rightarrow> Inl e
                | Inr n \<Rightarrow>
                    (case py_iter thread of
                       Inl e \<Rightarrow> Inl e
                     | Inr ts \<Rightarrow> validate_thread (n - 1) 0 ts))))"

definition load_body :: "yaml_file \<Rightarrow> exn + (pyobj \<times> pyobj)" where
  "load_body f =
     (case f of
        Missing \<Rightarrow> Inl FileNotFoundError
      | Unparsable \<Rightarrow> Inl YAMLError
      | Parsed data \<Rightarrow>
          (case get_fields data of
             Inl e \<Rightarrow> Inl e
           | Inr (nails, thread) \<Rightarrow>
               (case validate nails thread of
                  Inl e \<Rightarrow> Inl e
                | Inr u \<Rightarrow> Inr (nails, thread))))"

text \<open>The three \<^verbatim>\<open>except\<close> clauses print a message and call \<^verbatim>\<open>sys.exit(1)\<close>; any
  other exception leaves the function uncaught.\<close>

datatype diagnostic = FileNotFoundMsg | YAMLParseMsg | FileFormatMsg value_error

datatype 'a outcome = Returned 'a | Exit1 diagnostic | Uncaught exn

definition load_thread_art :: "yaml_file \<Rightarrow> (pyobj \<times> pyobj) outcome" where
  "load_thread_art f =
     (case load_body f of
        Inr r \<Rightarrow> Returned r
      | Inl FileNotFoundError \<Rightarrow> Exit1 FileNotFoundMsg
      | Inl YAMLError \<Rightarrow> Exit1 YAMLParseMsg
      | Inl (ValueError v) \<Rightarrow> Exit1 (FileFormatMsg v)
      | Inl e \<Rightarrow> Uncaught e)"

section \<open>The renderer: the subscriptions of \<^verbatim>\<open>visualize_thread_art\<close>\<close>

text \<open>The drawing calls belong to matplotlib; the model keeps what the function reads
  from \<open>nails\<close> and \<open>thread\<close>: the points of the polyline (lines 73 to 76), the centre
  of every nail's disc (line 82) and the coordinates of the two markers (lines 91 to
  98).\<close>

record rendering =
  polyline :: "(pyobj \<times> pyobj) list"
  discs :: "(pyobj \<times> pyobj) list"
  markers :: "((pyobj \<times> pyobj) \<times> (pyobj \<times> pyobj)) option"

fun thread_points :: "pyobj \<Rightarrow> pyobj list \<Rightarrow> exn + (pyobj \<times> pyobj) list" where
  "thread_points nails [] = Inr []"
| "thread_points nails (nail_idx # rest) =
     (case py_getitem nails nail_idx of
        Inl e \<Rightarrow> Inl e
      | Inr nail \<Rightarrow>
          (case unpack2 nail of
             Inl e \<Rightarrow> Inl e
           | Inr p \<Rightarrow>
               (case thread_points nails rest of
                  Inl e \<Rightarrow> Inl e
                | Inr ps \<Rightarrow> Inr (p # ps))))"

fun nail_discs :: "pyobj list \<Rightarrow> exn + (pyobj \<times> pyobj) list" where
  "nail_discs [] = Inr []"
| "nail_discs (nail # rest) =
     (case unpack2 nail of
        Inl e \<Rightarrow> Inl e
      | Inr p \<Rightarrow>
          (case nail_discs rest of
             Inl e \<Rightarrow> Inl e
           | Inr ps \<Rightarrow> Inr (p # ps)))"

text \<open>\<^verbatim>\<open>nails[thread[k]]\<close> followed by the reads of its components 0 and 1.\<close>

definition marker_at :: "pyobj \<Rightarrow> pyobj \<Rightarrow> int \<Rightarrow> exn + (pyobj \<times> pyobj)" where
  "marker_at nails thread k =
     (case py_getitem thread (Atom (PyInt k)) of
        Inl e \<Rightarrow> Inl e
      | Inr t \<Rightarrow>
          (case py_getitem nails t of
             Inl e \<Rightarrow> Inl e
           | Inr nail \<Rightarrow>
               (case py_getitem nail (Atom (PyInt 0)) of
                  Inl e \<Rightarrow> Inl e
                | Inr x \<Rightarrow>
                    (case py_getitem nail (Atom (PyInt 1)) of
                       Inl e \<Rightarrow> Inl e
                     | Inr y \<Rightarrow> Inr (x, y)))))"

definition visualize_thread_art :: "pyobj \<Rightarrow> pyobj \<Rightarrow> exn + rendering" where
  "visualize_thread_art nails thread =
     (case py_iter thread of
        Inl e \<Rightarrow> Inl e
      | Inr ts \<Rightarrow>
          (case thread_points nails ts of
             Inl e \<Rightarrow> Inl e
           | Inr line \<Rightarrow>
               (case py_iter nails of
                  Inl e \<Rightarrow> Inl e
                | Inr ns \<Rightarrow>
                    (case nail_discs ns of
                       Inl e \<Rightarrow> Inl e
                     | Inr ds \<Rightarrow>
                         if py_truthy thread then
                           (case marker_at nails thread 0 of
                              Inl e \<Rightarrow> Inl e
                            | Inr start_nail \<Rightarrow>
                                (case marker_at nails thread (- 1) of
                                   Inl e \<Rightarrow> Inl e
                                 | Inr end_nail \<Rightarrow>
                                     Inr \<lparr>polyline = line, discs = ds,
                                          markers = Some (start_nail, end_nail)\<rparr>))
                         else Inr \<lparr>polyline = line, discs = ds, markers = None\<rparr>))))"

section \<open>Python floats\<close>

text \<open>
  A float of CPython is an IEEE 754 binary64 number. The finite ones are the rationals
  \<open>m * 2 ^ e\<close> with \<open>\<bar>m\<bar> \<le> 2 ^ 53\<close> and \<open>e \<ge> -1074\<close>, and every arithmetic operation
  returns the exact result rounded to the nearest of them, a tie going to the even
  mantissa. \<open>fl64\<close> is that rounding on the rationals: \<open>ilog2\<close> finds the binade,
  the exponent of the last place is 52 below it (never below -1074, the subnormal
  range), and the quotient is rounded to an integer. Above \<open>2 ^ 1024\<close> IEEE rounds to
  infinity; the generator divides, adds and subtracts numbers below 8 only, so the
  one place where that bound matters is the conversion of an int, where CPython raises
  OverflowError.
\<close>

definition round_half_even :: "rat \<Rightarrow> int" where
  "round_half_even q =
     (let f = \<lfloor>q\<rfloor>; r = q - of_int f
      in if r < 1 / 2 then f else if 1 / 2 < r then f + 1 else if even f then f else f + 1)"

definition ilog2 :: "rat \<Rightarrow> int" where
  "ilog2 q =
     (case quotient_of q of
        (p, d) \<Rightarrow> let k = bitlen p - bitlen d in if 2 powi k \<le> q then k else k - 1)"

definition fl64 :: "rat \<Rightarrow> rat" where
  "fl64 q =
     (if q = 0 then 0
      else let e = max (ilog2 \<bar>q\<bar> - 52) (- 1074)
           in sgn q * of_int (round_half_even (\<bar>q\<bar> / 2 powi e)) * 2 powi e)"

text \<open>The exponent of the last place of the floats around a positive \<open>q\<close>.\<close>

definition expo :: "rat \<Rightarrow> int" where
  "expo q = max (ilog2 q - 52) (- 1074)"

text \<open>\<^verbatim>\<open>float(n)\<close> for an int, as the mixed operations \<^verbatim>\<open>4.0 / n\<close> and \<^verbatim>\<open>x * i\<close> apply
  it to their int operand.\<close>

definition float_of_int :: "int \<Rightarrow> exn + rat" where
  "float_of_int n =
     (let r = fl64 (of_int n) in if 2 ^ 1024 \<le> \<bar>r\<bar> then Inl OverflowError else Inr r)"

definition float_add :: "rat \<Rightarrow> rat \<Rightarrow> rat" where
  "float_add a b = fl64 (a + b)"

definition float_sub :: "rat \<Rightarrow> rat \<Rightarrow> rat" where
  "float_sub a b = fl64 (a - b)"


text \<open>The divisor is never zero where the generator divides.\<close>

definition float_div :: "rat \<Rightarrow> rat \<Rightarrow> rat" where
  "float_div a b = fl64 (a / b)"

text \<open>\<^verbatim>\<open>x % w\<close> on floats: the remainder of C's \<^verbatim>\<open>fmod\<close>, which is exact and has the sign
  of \<open>x\<close>, moved by \<open>w\<close> when its sign differs from the sign of \<open>w\<close>.\<close>

definition float_mod :: "rat \<Rightarrow> rat \<Rightarrow> rat" where
  "float_mod x w =
     (let t = x / w;
          m = x - w * of_int (if 0 \<le> t then \<lfloor>t\<rfloor> else \<lceil>t\<rceil>)
      in if m \<noteq> 0 \<and> (w < 0) \<noteq> (m < 0) then fl64 (m + w) else m)"

text \<open>\<^verbatim>\<open>round(x, ndigits)\<close>: the exact value of \<open>x\<close> is rounded to \<open>ndigits\<close> decimals,
  ties to even, and the decimal is read back as a float.\<close>

definition py_round :: "rat \<Rightarrow> nat \<Rightarrow> rat" where
  "py_round x ndigits = fl64 (of_int (round_half_even (x * 10 ^ ndigits)) / 10 ^ ndigits)"

section \<open>The generator\<close>

subsection \<open>\<^verbatim>\<open>generate_square_nails\<close>\<close>

text \<open>Lines 48 to 67: the nail of one round of the loop, from the value of
  \<^verbatim>\<open>current_pos\<close> at its start. \<open>square_xy\<close> is the chain of branches of lines 50 to 65,
  which gives \<^verbatim>\<open>x\<close> and \<^verbatim>\<open>y\<close> from \<^verbatim>\<open>pos_on_perimeter\<close>; line 67 rounds the two.\<close>

definition square_xy :: "rat \<Rightarrow> rat \<times> rat" where
  "square_xy pos_on_perimeter =
     (if pos_on_perimeter \<le> 1 then (pos_on_perimeter, 0)
      else if pos_on_perimeter \<le> 2 then (1, float_sub pos_on_perimeter 1)
      else if pos_on_perimeter \<le> 3 then (float_sub 1 (float_sub pos_on_perimeter 2), 1)
      else (0, float_sub 1 (float_sub pos_on_perimeter 3)))"

definition square_nail :: "rat \<Rightarrow> rat \<times> rat" where
  "square_nail current_pos =
     (let xy = square_xy (float_mod current_pos 4)
      in (py_round (fst xy) 6, py_round (snd xy) 6))"

text \<open>The loop of line 47, with the number of rounds left; line 68 moves \<^verbatim>\<open>current_pos\<close>.\<close>

fun square_loop :: "rat \<Rightarrow> nat \<Rightarrow> rat \<Rightarrow> (rat \<times> rat) list" where
  "square_loop spacing 0 current_pos = []"
| "square_loop spacing (Suc rounds) current_pos =
     square_nail current_pos # square_loop spacing rounds (float_add current_pos spacing)"

definition generate_square_nails :: "int \<Rightarrow> exn + (rat \<times> rat) list" where
  "generate_square_nails num_nails =
     (if num_nails < 4 then Inl (ValueError SquareTooFewNails)
      else
        (case float_of_int num_nails of
           Inl e \<Rightarrow> Inl e
         | Inr n \<Rightarrow> Inr (square_loop (float_div 4 n) (nat num_nails) 0)))"

text \<open>The value of \<^verbatim>\<open>current_pos\<close> when round \<open>i\<close> starts: \<open>i\<close> additions of the spacing,
  each rounded.\<close>

fun current_pos_at :: "rat \<Rightarrow> nat \<Rightarrow> rat" where
  "current_pos_at spacing 0 = 0"
| "current_pos_at spacing (Suc i) = float_add (current_pos_at spacing i) spacing"

text \<open>
  The closed form of the specification, for comparison with the loop: nail \<open>i\<close> sits at
  perimeter position \<^verbatim>\<open>(i * 4 / count) mod 4\<close>, the quotient being the float nearest to
  the exact one, on the segments \<open>[0,1)\<close>, \<open>[1,2)\<close>, \<open>[2,3)\<close> and \<open>[3,4)\<close>, and each
  coordinate is rounded to six decimals.
\<close>

definition closed_form_position :: "int \<Rightarrow> nat \<Rightarrow> rat" where
  "closed_form_position count i = float_mod (fl64 (of_int (int i * 4) / of_int count)) 4"

definition closed_form_xy :: "rat \<Rightarrow> rat \<times> rat" where
  "closed_form_xy p =
     (if p < 1 then (p, 0)
      else if p < 2 then (1, float_sub p 1)
      else if p < 3 then (float_sub 1 (float_sub p 2), 1)
      else (0, float_sub 1 (float_sub p 3)))"

definition closed_form_nail :: "int \<Rightarrow> nat \<Rightarrow> rat \<times> rat" where
  "closed_form_nail count i =
     (let xy = closed_form_xy (closed_form_position count i)
      in (py_round (fst xy) 6, py_round (snd xy) 6))"

text \<open>
  The point the specification describes, in exact arithmetic: the perimeter of the unit
  square has length 4 and is walked from \<open>(0,0)\<close> along the bottom, the right, the top and
  the left edge; \<open>perimeter_point p\<close> is the point at distance \<open>p\<close> from the start.
\<close>

definition perimeter_point :: "rat \<Rightarrow> rat \<times> rat" where
  "perimeter_point p =
     (if p \<le> 1 then (p, 0)
      else if p \<le> 2 then (1, p - 1)
      else if p \<le> 3 then (3 - p, 1)
      else (0, 4 - p))"

subsection \<open>\<^verbatim>\<open>generate_circle_nails\<close>\<close>






subsection \<open>\<^verbatim>\<open>create_thread_art_file\<close> and \<^verbatim>\<open>main\<close>\<close>

text \<open>\<^verbatim>\<open>str.lower\<close> on the letters A to Z; the two shape names are ASCII.\<close>

definition lower :: "string \<Rightarrow> string" where
  "lower s =
     map (\<lambda>c. let k = (of_char c :: nat) in if 65 \<le> k \<and> k \<le> 90 then char_of (k + 32) else c) s"





text \<open>Nail \<open>i\<close> of the layout a call returns, when it returns one that long.\<close>

definition nail_of :: "exn + (rat \<times> rat) list \<Rightarrow> nat \<Rightarrow> (rat \<times> rat) option" where
  "nail_of result i =
     (case result of
        Inl e \<Rightarrow> None
      | Inr nails \<Rightarrow> if i < length nails then Some (nails ! i) else None)"

section \<open>Sample files\<close>

text \<open>A file with the two keys, and the three nails \<open>(0,0)\<close>, \<open>(1,0)\<close>, \<open>(1,1)\<close>.\<close>

definition sample_nails :: pyobj where
  "sample_nails = PyList
     [PyList [Atom (PyInt 0), Atom (PyInt 0)],
      PyList [Atom (PyInt 1), Atom (PyInt 0)],
      PyList [Atom (PyInt 1), Atom (PyInt 1)]]"

definition document :: "pyobj \<Rightarrow> pyobj \<Rightarrow> pyobj" where
  "document nails thread = PyDict [(PyStr ''nails'', nails), (PyStr ''thread'', thread)]"


section \<open>Properties of the loader and the renderer\<close>

subsection \<open>The validation loops\<close>

lemma py_len_iter: "py_iter obj = Inr xs \<Longrightarrow> py_len obj = Inr (int (length xs))"
  by (induction obj rule: py_iter.induct) auto



lemma load_Returned_iff:
  "load_thread_art f = Returned (nails, thread) \<longleftrightarrow>
     (\<exists>data. f = Parsed data \<and> get_fields data = Inr (nails, thread) \<and> validate nails thread = Inr ())"
  by (auto simp: load_thread_art_def load_body_def split: yaml_file.splits sum.splits exn.splits prod.splits)

lemma validate_Inr_iff:
  "validate nails thread = Inr () \<longleftrightarrow>
     (\<exists>ns ts. py_iter nails = Inr ns \<and> validate_nails 0 ns = Inr () \<and> py_iter thread = Inr ts
        \<and> validate_thread (int (length ns) - 1) 0 ts = Inr ())"
  by (auto simp: validate_def py_len_iter split: sum.splits)

lemma validate_thread_Inr_iff:
  "validate_thread m k ts = Inr () \<longleftrightarrow> (\<forall>t \<in> set ts. \<not> bad_index m t)"
  by (induction ts arbitrary: k) auto

lemma check_nail_Inr: "check_nail i nail = Inr () \<Longrightarrow> \<exists>x y. nail = PyList [x, y]"
  by (auto simp: check_nail_def split: pyobj.splits list.splits)

lemma validate_nails_Inr:
  "validate_nails k ns = Inr () \<Longrightarrow> nail \<in> set ns \<Longrightarrow> \<exists>x y. nail = PyList [x, y]"
proof (induction ns arbitrary: k)
  case Nil then show ?case by simp
next
  case (Cons n ns)
  from Cons.prems(1) have a: "check_nail k n = Inr ()" and b: "validate_nails (Suc k) ns = Inr ()"
    by (auto split: sum.splits)
  from Cons.prems(2) show ?case using check_nail_Inr[OF a] Cons.IH[OF b] by auto
qed

lemma iter_pairs_is_list:
  assumes "py_iter nails = Inr ns" "ns \<noteq> []" "\<forall>nail \<in> set ns. \<exists>x y. nail = PyList [x, y]"
  shows "nails = PyList ns"
  using assms by (induction nails rule: py_iter.induct) (auto simp: neq_Nil_conv)

lemma returned_nails_are_list:
  assumes "load_thread_art f = Returned (nails, thread)" "py_iter thread = Inr ts" "ts \<noteq> []"
  shows "\<exists>ns. nails = PyList ns \<and> ns \<noteq> []"
proof -
  from assms(1) obtain ns ts' where ns: "py_iter nails = Inr ns" "validate_nails 0 ns = Inr ()"
    "py_iter thread = Inr ts'" "validate_thread (int (length ns) - 1) 0 ts' = Inr ()"
    unfolding load_Returned_iff validate_Inr_iff by blast
  with assms(2) have ts: "validate_thread (int (length ns) - 1) 0 ts = Inr ()" by simp
  from assms(3) obtain t where "t \<in> set ts" by (cases ts) auto
  with ts have "\<not> bad_index (int (length ns) - 1) t" by (simp add: validate_thread_Inr_iff)
  then have "ns \<noteq> []" by (auto simp: bad_index_def split: option.splits)
  moreover have "\<forall>nail \<in> set ns. \<exists>x y. nail = PyList [x, y]"
    using validate_nails_Inr[OF ns(2)] by blast
  ultimately show ?thesis using iter_pairs_is_list[OF ns(1)] by blast
qed

lemma nail_discs_ok:
  "\<forall>nail \<in> set ns. \<exists>x y. nail = PyList [x, y] \<Longrightarrow> \<exists>ds. nail_discs ns = Inr ds"
  by (induction ns) (auto simp: unpack2_def)

lemma thread_points_ok:
  assumes "\<forall>nail \<in> set ns. \<exists>x y. nail = PyList [x, y]" "\<forall>t \<in> set ts. \<not> bad_index (int (length ns) - 1) t"
  shows "\<exists>ps. thread_points (PyList ns) ts = Inr ps"
  using assms(2)
proof (induction ts)
  case Nil then show ?case by simp
next
  case (Cons t ts)
  from Cons.prems obtain i where i: "as_index t = Some i" "0 \<le> i" "i < int (length ns)"
    by (auto simp: bad_index_def split: option.splits)
  then have g: "py_getitem (PyList ns) t = Inr (ns ! nat i)" by (simp add: list_index_def)
  from i have "ns ! nat i \<in> set ns" by simp
  with assms(1) obtain x y where "ns ! nat i = PyList [x, y]" by blast
  with g Cons show ?case by (auto simp: unpack2_def)
qed

lemma marker_ok:
  assumes "\<forall>nail \<in> set ns. \<exists>x y. nail = PyList [x, y]" "\<forall>t \<in> set ts. \<not> bad_index (int (length ns) - 1) t"
    "ts \<noteq> []" "k = 0 \<or> k = - 1"
  shows "\<exists>p. marker_at (PyList ns) (PyList ts) k = Inr p"
proof -
  have "\<exists>t. py_getitem (PyList ts) (Atom (PyInt k)) = Inr t \<and> t \<in> set ts"
  proof (cases "k = 0")
    case True
    with assms(3) show ?thesis by (cases ts) (auto simp: list_index_def)
  next
    case False
    with assms(4) have k: "k = - 1" by simp
    from assms(3) have len: "Suc 0 \<le> length ts" by (cases ts) simp_all
    then have "nat (int (length ts) + - 1) < length ts" by linarith
    then have "ts ! nat (int (length ts) + - 1) \<in> set ts" by (rule nth_mem)
    with k len show ?thesis by (simp add: list_index_def)
  qed
  then obtain t where t: "py_getitem (PyList ts) (Atom (PyInt k)) = Inr t" "t \<in> set ts" by blast
  with assms(2) obtain i where i: "as_index t = Some i" "0 \<le> i" "i < int (length ns)"
    by (auto simp: bad_index_def split: option.splits)
  then have g: "py_getitem (PyList ns) t = Inr (ns ! nat i)" by (simp add: list_index_def)
  from i have "ns ! nat i \<in> set ns" by simp
  with assms(1) obtain x y where "ns ! nat i = PyList [x, y]" by blast
  with g t show ?thesis by (simp add: marker_at_def list_index_def)
qed

lemma render_safe_for_list_thread:
  assumes "load_thread_art f = Returned (nails, PyList ts)"
  shows "\<exists>r. visualize_thread_art nails (PyList ts) = Inr r"
proof -
  from assms obtain ns where ns: "py_iter nails = Inr ns" "validate_nails 0 ns = Inr ()"
    "validate_thread (int (length ns) - 1) 0 ts = Inr ()"
    unfolding load_Returned_iff validate_Inr_iff by auto
  have pairs: "\<forall>nail \<in> set ns. \<exists>x y. nail = PyList [x, y]"
    using validate_nails_Inr[OF ns(2)] by blast
  have good: "\<forall>t \<in> set ts. \<not> bad_index (int (length ns) - 1) t"
    using ns(3) by (simp add: validate_thread_Inr_iff)
  obtain ds where ds: "nail_discs ns = Inr ds" using nail_discs_ok[OF pairs] by blast
  show ?thesis
  proof (cases "ts = []")
    case True
    with ns(1) ds show ?thesis by (simp add: visualize_thread_art_def)
  next
    case False
    with assms have "\<exists>ns'. nails = PyList ns' \<and> ns' \<noteq> []"
      using returned_nails_are_list[of f nails "PyList ts" ts] by simp
    with ns(1) have nails: "nails = PyList ns" by auto
    obtain ps where ps: "thread_points (PyList ns) ts = Inr ps"
      using thread_points_ok[OF pairs good] by blast
    obtain p0 where p0: "marker_at (PyList ns) (PyList ts) 0 = Inr p0"
      using marker_ok[OF pairs good False, of 0] by auto
    obtain p1 where p1: "marker_at (PyList ns) (PyList ts) (- 1) = Inr p1"
      using marker_ok[OF pairs good False, of "- 1"] by auto
    show ?thesis using nails ps ds p0 p1 False by (simp add: visualize_thread_art_def)
  qed
qed

subsection \<open>Claims about \<^verbatim>\<open>load_thread_art\<close> and the renderer\<close>

lemma get_fields_document: "get_fields (document nails thread) = Inr (nails, thread)"
  by (simp add: get_fields_def document_def py_eq_def)


text \<open>
  C5, at a failing input. The file
  \<^verbatim>\<open>nails: [["a", 0.5]]\<close>, \<^verbatim>\<open>thread: []\<close>
  has a first entry that is no pair of numbers. The test \<^verbatim>\<open>0 <= x\<close> of line 36 raises
  TypeError on the string, no \<^verbatim>\<open>except\<close> clause of the function takes a TypeError, and
  the exception leaves \<^verbatim>\<open>load_thread_art\<close> uncaught: no message naming nail 0 is
  printed.
\<close>

theorem non_numeric_coordinate_uncaught:
  "load_thread_art
     (Parsed (document (PyList [PyList [Atom (PyStr ''a''), Atom (PyFloat (Finite (1 / 2)))]])
        (PyList [])))
   = Uncaught TypeError"
  by (simp add: load_thread_art_def load_body_def get_fields_document validate_def
      check_nail_def between_0_1_def)



text \<open>
  C7, at a failing input. An empty file is valid YAML and loads as \<^verbatim>\<open>None\<close>: its text
  is not parsed into a mapping. The test \<^verbatim>\<open>'nails' not in data\<close> of line 25 raises
  TypeError on \<^verbatim>\<open>None\<close>, which no \<^verbatim>\<open>except\<close> clause takes: the load ends in an uncaught
  exception, not in the message of a malformed file.
\<close>

theorem empty_document_uncaught: "load_thread_art (Parsed (Atom PyNone)) = Uncaught TypeError"
  by (simp add: load_thread_art_def load_body_def get_fields_def)

text \<open>What the three \<^verbatim>\<open>except\<close> clauses do cover: a missing file, a text that is not
  YAML, and a mapping that lacks one of the two keys.\<close>

lemma missing_file_reported: "load_thread_art Missing = Exit1 FileNotFoundMsg"
  by (simp add: load_thread_art_def load_body_def)

lemma unparsable_file_reported: "load_thread_art Unparsable = Exit1 YAMLParseMsg"
  by (simp add: load_thread_art_def load_body_def)

lemma missing_key_reported:
  assumes "map_of kvs (PyStr ''nails'') = None \<or> map_of kvs (PyStr ''thread'') = None"
  shows "load_thread_art (Parsed (PyDict kvs)) = Exit1 (FileFormatMsg MissingKeys)"
  using assms by (auto simp: load_thread_art_def load_body_def get_fields_def)

text \<open>
  C9, as the code has it. The claim fails: the file \<^verbatim>\<open>nails: []\<close>, \<^verbatim>\<open>thread: []\<close>
  loads, and the layout returned is empty.
\<close>

theorem empty_layout_loads:
  "load_thread_art (Parsed (document (PyList []) (PyList []))) = Returned (PyList [], PyList [])"
  by (simp add: load_thread_art_def load_body_def get_fields_document validate_def)

text \<open>
  C9, amended. Whenever a load succeeds and the thread it returns has an entry, the
  nails it returns are a list with at least one nail.
\<close>

theorem threaded_layout_nonempty:
  assumes "load_thread_art f = Returned (nails, thread)" "py_iter thread = Inr ts" "ts \<noteq> []"
  shows "\<exists>ns. nails = PyList ns \<and> ns \<noteq> []"
  using assms by (rule returned_nails_are_list)

theorem threaded_layout_nonempty_witness:
  "load_thread_art (Parsed (document sample_nails (PyList [Atom (PyInt 2), Atom (PyInt 2)])))
     = Returned (sample_nails, PyList [Atom (PyInt 2), Atom (PyInt 2)])
   \<and> py_iter (PyList [Atom (PyInt 2), Atom (PyInt 2)]) = Inr [Atom (PyInt 2), Atom (PyInt 2)]
   \<and> [Atom (PyInt 2), Atom (PyInt 2)] \<noteq> ([] :: pyobj list)
   \<and> (\<exists>ns. sample_nails = PyList ns \<and> ns \<noteq> [])"
proof -
  let ?ts = "[Atom (PyInt 2), Atom (PyInt 2)]"
  have l: "load_thread_art (Parsed (document sample_nails (PyList ?ts)))
     = Returned (sample_nails, PyList ?ts)"
    by (simp add: load_thread_art_def load_body_def get_fields_document validate_def
        sample_nails_def check_nail_def between_0_1_def bad_index_def)
  have i: "py_iter (PyList ?ts) = Inr ?ts" by simp
  have n: "?ts \<noteq> []" by simp
  from threaded_layout_nonempty [OF l i n] l i n show ?thesis by blast
qed

text \<open>
  C10, at a failing input. The file
  \<^verbatim>\<open>nails: [[0.5, 0.5]]\<close>, \<^verbatim>\<open>thread: {0: 7}\<close>
  passes the validation: the loop of line 41 runs over the keys of the mapping, and the
  only key is 0. The renderer then reads \<^verbatim>\<open>nails[thread[0]]\<close> on line 92, which is
  \<^verbatim>\<open>nails[7]\<close> on a list of one nail, and raises IndexError.
\<close>

theorem mapping_thread_breaks_renderer:
  "load_thread_art
     (Parsed (document (PyList [PyList [Atom (PyFloat (Finite (1 / 2))), Atom (PyFloat (Finite (1 / 2)))]])
        (PyDict [(PyInt 0, Atom (PyInt 7))])))
     = Returned (PyList [PyList [Atom (PyFloat (Finite (1 / 2))), Atom (PyFloat (Finite (1 / 2)))]],
         PyDict [(PyInt 0, Atom (PyInt 7))])
   \<and> visualize_thread_art
       (PyList [PyList [Atom (PyFloat (Finite (1 / 2))), Atom (PyFloat (Finite (1 / 2)))]])
       (PyDict [(PyInt 0, Atom (PyInt 7))])
     = Inl IndexError"
  by (simp add: load_thread_art_def load_body_def get_fields_document validate_def py_eq_def
      check_nail_def between_0_1_def bad_index_def visualize_thread_art_def unpack2_def
      list_index_def marker_at_def)

text \<open>With a thread that is a list, as the file format has it, every read of the renderer
  succeeds (lemma \<open>render_safe_for_list_thread\<close> above).\<close>

section \<open>Properties of the float model\<close>

subsection \<open>Rounding to the nearest float\<close>

lemma rhe_of_int: "round_half_even (of_int m) = m"
  by (simp add: round_half_even_def)

lemma rhe_cases: "round_half_even q = \<lfloor>q\<rfloor> \<or> round_half_even q = \<lfloor>q\<rfloor> + 1"
  by (simp add: round_half_even_def Let_def)

lemma rhe_mono: 
  assumes "x \<le> y" shows "round_half_even x \<le> round_half_even y"
proof -
  have fg: "\<lfloor>x\<rfloor> \<le> \<lfloor>y\<rfloor>" using assms by (rule floor_mono)
  show ?thesis
  proof (cases "\<lfloor>x\<rfloor> < \<lfloor>y\<rfloor>")
    case True
    have "round_half_even x \<le> \<lfloor>x\<rfloor> + 1" using rhe_cases[of x] by auto
    also have "\<dots> \<le> \<lfloor>y\<rfloor>" using True by simp
    also have "\<dots> \<le> round_half_even y" using rhe_cases[of y] by auto
    finally show ?thesis .
  next
    case False
    with fg have eq: "\<lfloor>x\<rfloor> = \<lfloor>y\<rfloor>" by simp
    then have "x - of_int \<lfloor>x\<rfloor> \<le> y - of_int \<lfloor>y\<rfloor>" using assms by simp
    then show ?thesis using eq
      by (auto simp: round_half_even_def Let_def)
  qed
qed

lemma rhe_le_int: "q \<le> of_int m \<Longrightarrow> round_half_even q \<le> m"
  using rhe_mono[of q "of_int m"] by (simp add: rhe_of_int)

lemma rhe_ge_int: "of_int m \<le> q \<Longrightarrow> m \<le> round_half_even q"
  using rhe_mono[of "of_int m" q] by (simp add: rhe_of_int)

lemma pw_of_nat: "(2::rat) powi int n = 2 ^ n"
  by simp

lemma ilog2_bounds:
  assumes "0 < q"
  shows "2 powi ilog2 q \<le> q \<and> q < 2 powi (ilog2 q + 1)"
proof -
  obtain p d where pd: "quotient_of q = (p, d)" by (cases "quotient_of q")
  then have d: "0 < d" by (rule quotient_of_denom_pos)
  have q: "q = of_int p / of_int d" using pd by (rule quotient_of_div)
  with assms d have p: "0 < p" by (simp add: zero_less_divide_iff)
  define bp where "bp = bitlen p"
  define bd where "bd = bitlen d"
  have bp1: "1 \<le> bp" using p by (simp add: bp_def bitlen_alt_def)
  have bd1: "1 \<le> bd" using d by (simp add: bd_def bitlen_alt_def)
  from bitlen_bounds[OF p] have pb: "2 ^ nat (bp - 1) \<le> p" "p < 2 ^ nat bp" by (simp_all add: bp_def)
  from bitlen_bounds[OF d] have db: "2 ^ nat (bd - 1) \<le> d" "d < 2 ^ nat bd" by (simp_all add: bd_def)
  have pbr: "(2::rat) powi (bp - 1) \<le> of_int p" "(of_int p :: rat) < 2 powi bp"
  proof -
    have "(of_int (2 ^ nat (bp - 1)) :: rat) \<le> of_int p" using pb(1) by (simp only: of_int_le_iff)
    then show "(2::rat) powi (bp - 1) \<le> of_int p" using bp1 by (simp add: power_int_nonneg_exp)
    have "(of_int p :: rat) < of_int (2 ^ nat bp)" using pb(2) by (simp only: of_int_less_iff)
    then show "(of_int p :: rat) < 2 powi bp" using bp1 by (simp add: power_int_nonneg_exp)
  qed
  have dbr: "(2::rat) powi (bd - 1) \<le> of_int d" "(of_int d :: rat) < 2 powi bd"
  proof -
    have "(of_int (2 ^ nat (bd - 1)) :: rat) \<le> of_int d" using db(1) by (simp only: of_int_le_iff)
    then show "(2::rat) powi (bd - 1) \<le> of_int d" using bd1 by (simp add: power_int_nonneg_exp)
    have "(of_int d :: rat) < of_int (2 ^ nat bd)" using db(2) by (simp only: of_int_less_iff)
    then show "(of_int d :: rat) < 2 powi bd" using bd1 by (simp add: power_int_nonneg_exp)
  qed
  have dpos: "(0::rat) < of_int d" using d by simp
  have upper: "q < 2 powi (bp - bd + 1)"
  proof -
    have "of_int p < (2::rat) powi bp" by (rule pbr(2))
    also have "\<dots> = 2 powi (bp - bd + 1) * 2 powi (bd - 1)"
      by (simp add: power_int_add[symmetric])
    also have "\<dots> \<le> 2 powi (bp - bd + 1) * of_int d"
      using dbr(1) by (intro mult_left_mono) simp_all
    finally show ?thesis using dpos by (simp add: q pos_divide_less_eq)
  qed
  have lower: "2 powi (bp - bd - 1) < q"
  proof -
    have "(2::rat) powi (bp - bd - 1) * of_int d < 2 powi (bp - bd - 1) * 2 powi bd"
      using dbr(2) by (intro mult_strict_left_mono) simp_all
    also have "\<dots> = 2 powi (bp - 1)" by (simp add: power_int_add[symmetric])
    also have "\<dots> \<le> of_int p" by (rule pbr(1))
    finally show ?thesis using dpos by (simp add: q pos_less_divide_eq)
  qed
  have il: "ilog2 q = (if 2 powi (bp - bd) \<le> q then bp - bd else bp - bd - 1)"
    by (simp add: ilog2_def pd bp_def bd_def Let_def)
  show ?thesis
  proof (cases "2 powi (bp - bd) \<le> q")
    case True
    with il upper show ?thesis by simp
  next
    case False
    with il lower show ?thesis by simp
  qed
qed

lemma pw_increasing: "a \<le> b \<Longrightarrow> (2::rat) powi a \<le> 2 powi b"
  by (rule power_int_increasing) simp_all

lemma ilog2_unique:
  assumes "2 powi k \<le> q" "q < 2 powi (k + 1)"
  shows "ilog2 q = k"
proof -
  have "(0::rat) < 2 powi k" by simp
  with assms(1) have q: "0 < q" by linarith
  note b = ilog2_bounds[OF q]
  have "\<not> k + 1 \<le> ilog2 q"
  proof
    assume "k + 1 \<le> ilog2 q"
    then have "(2::rat) powi (k + 1) \<le> 2 powi ilog2 q" by (rule pw_increasing)
    with b assms show False by linarith
  qed
  moreover have "\<not> ilog2 q + 1 \<le> k"
  proof
    assume "ilog2 q + 1 \<le> k"
    then have "(2::rat) powi (ilog2 q + 1) \<le> 2 powi k" by (rule pw_increasing)
    with b assms show False by linarith
  qed
  ultimately show ?thesis by linarith
qed

lemma ilog2_mono:
  assumes "0 < x" "x \<le> y" shows "ilog2 x \<le> ilog2 y"
proof (rule ccontr)
  assume "\<not> ilog2 x \<le> ilog2 y"
  then have "ilog2 y + 1 \<le> ilog2 x" by simp
  then have "(2::rat) powi (ilog2 y + 1) \<le> 2 powi ilog2 x" by (rule pw_increasing)
  moreover have "0 < y" using assms by linarith
  ultimately show False using ilog2_bounds[OF assms(1)] ilog2_bounds[OF \<open>0 < y\<close>] assms(2) by linarith
qed


lemma fl64_pos: "0 < q \<Longrightarrow> fl64 q = of_int (round_half_even (q / 2 powi expo q)) * 2 powi expo q"
  by (simp add: fl64_def expo_def Let_def)

lemma fl64_zero: "fl64 0 = 0"
  by (simp add: fl64_def)

lemma pw52: "(2::rat) powi (e + 52) = 4503599627370496 * 2 powi e"
  by (simp add: power_int_add)

lemma pw53: "(2::rat) powi (e + 53) = 9007199254740992 * 2 powi e"
  by (simp add: power_int_add)

lemma expo_mono: "0 < x \<Longrightarrow> x \<le> y \<Longrightarrow> expo x \<le> expo y"
  using ilog2_mono[of x y] by (simp add: expo_def)

lemma mantissa_le:
  assumes "0 < q" shows "round_half_even (q / 2 powi expo q) \<le> 2 ^ 53"
proof -
  have "q < 2 powi (ilog2 q + 1)" using ilog2_bounds[OF assms] by simp
  also have "\<dots> \<le> 2 powi (expo q + 53)" by (rule pw_increasing) (simp add: expo_def)
  also have "\<dots> = 9007199254740992 * 2 powi expo q" by (rule pw53)
  finally have "q / 2 powi expo q < 9007199254740992" by (simp add: pos_divide_less_eq)
  then have "q / 2 powi expo q \<le> of_int (2 ^ 53)" by simp
  then show ?thesis by (rule rhe_le_int)
qed

lemma mantissa_ge:
  assumes "0 < q" "- 1074 \<le> ilog2 q - 52" shows "2 ^ 52 \<le> round_half_even (q / 2 powi expo q)"
proof -
  have e: "expo q = ilog2 q - 52" using assms(2) by (simp add: expo_def)
  have "4503599627370496 * 2 powi expo q = (2::rat) powi (expo q + 52)" by (rule pw52[symmetric])
  also have "\<dots> = 2 powi ilog2 q" by (simp add: e)
  also have "\<dots> \<le> q" using ilog2_bounds[OF assms(1)] by simp
  finally have "4503599627370496 \<le> q / 2 powi expo q" by (simp add: pos_le_divide_eq)
  then have "of_int (2 ^ 52) \<le> q / 2 powi expo q" by simp
  then show ?thesis by (rule rhe_ge_int)
qed

lemma mantissa_nonneg:
  assumes "0 < q" shows "0 \<le> round_half_even (q / 2 powi expo q)"
proof -
  have "(of_int 0 :: rat) \<le> q / 2 powi expo q" using assms by simp
  then show ?thesis by (rule rhe_ge_int)
qed

lemma fl64_nonneg: "0 \<le> q \<Longrightarrow> 0 \<le> fl64 q"
  using mantissa_nonneg[of q] by (cases "q = 0") (simp_all add: fl64_zero fl64_pos)

lemma fl64_exact:
  assumes "0 \<le> m" "m \<le> 2 ^ 53" "- 1074 \<le> e"
  shows "fl64 (of_int m * 2 powi e) = of_int m * 2 powi e"
proof (cases "m = 0")
  case True
  then show ?thesis by (simp add: fl64_zero)
next
  case False
  with assms(1) have m: "0 < m" by simp
  define r :: rat where "r = of_int m * 2 powi e"
  have r: "0 < r" using m by (simp add: r_def)
  have ex: "\<exists>n. r / 2 powi expo r = of_int n"
  proof (cases "m = 2 ^ 53")
    case True
    have r53: "r = 2 powi (e + 53)" by (simp add: r_def True pw53)
    have "(2::rat) powi (e + 53) < 2 powi (e + 53 + 1)" by (intro power_int_strict_increasing) simp_all
    then have "ilog2 r = e + 53" unfolding r53 by (intro ilog2_unique) simp_all
    then have e': "expo r = e + 1" using assms(3) by (simp add: expo_def)
    have "e + 53 = (e + 1) + 52" by simp
    then have "r = 2 powi ((e + 1) + 52)" using r53 by (simp only:)
    also have "\<dots> = 4503599627370496 * 2 powi (e + 1)" by (rule pw52)
    finally have "r / 2 powi (e + 1) = of_int (2 ^ 52)" by simp
    then show ?thesis unfolding e' by blast
  next
    case False
    with assms(2) have "m \<le> 2 ^ 53 - 1" by simp
    then have "(of_int m :: rat) \<le> of_int (2 ^ 53 - 1)" by (simp only: of_int_le_iff)
    then have "(of_int m :: rat) < 9007199254740992" by simp
    then have "r < 9007199254740992 * 2 powi e" by (simp add: r_def)
    also have "\<dots> = 2 powi (e + 53)" by (rule pw53[symmetric])
    finally have lt: "r < 2 powi (e + 53)" .
    have "ilog2 r < e + 53"
    proof (rule ccontr)
      assume "\<not> ilog2 r < e + 53"
      then have "(2::rat) powi (e + 53) \<le> 2 powi ilog2 r" by (intro pw_increasing) simp
      with ilog2_bounds[OF r] lt show False by linarith
    qed
    then have le: "expo r \<le> e" using assms(3) by (simp add: expo_def)
    have "r / 2 powi expo r = of_int m * 2 powi (e - expo r)"
      by (simp add: r_def power_int_diff)
    also have "\<dots> = of_int m * 2 ^ nat (e - expo r)" using le by (simp add: power_int_nonneg_exp)
    also have "\<dots> = of_int (m * 2 ^ nat (e - expo r))" by simp
    finally show ?thesis by blast
  qed
  then obtain n where n: "r / 2 powi expo r = of_int n" by blast
  have "fl64 r = of_int (round_half_even (r / 2 powi expo r)) * 2 powi expo r"
    using r by (rule fl64_pos)
  also have "\<dots> = (r / 2 powi expo r) * 2 powi expo r" by (simp add: n rhe_of_int)
  also have "\<dots> = r" by simp
  finally show ?thesis by (simp add: r_def)
qed

lemma fl64_repr:
  assumes "0 \<le> q"
  shows "\<exists>m e. 0 \<le> m \<and> m \<le> 2 ^ 53 \<and> - 1074 \<le> e \<and> fl64 q = of_int m * 2 powi e"
proof (cases "q = 0")
  case True
  have "fl64 q = of_int 0 * 2 powi 0" by (simp add: True fl64_zero)
  then show ?thesis by (intro exI[of _ 0]) auto
next
  case False
  with assms have q: "0 < q" by simp
  have "- 1074 \<le> expo q" by (simp add: expo_def)
  with mantissa_le[OF q] mantissa_nonneg[OF q] fl64_pos[OF q] show ?thesis by blast
qed

lemma fl64_idem: "0 \<le> q \<Longrightarrow> fl64 (fl64 q) = fl64 q"
  using fl64_repr[of q] fl64_exact by auto

lemma fl64_mono:
  assumes "0 \<le> x" "x \<le> y"
  shows "fl64 x \<le> fl64 y"
proof (cases "x = 0")
  case True
  then show ?thesis using assms fl64_nonneg[of y] by (simp add: fl64_zero)
next
  case False
  with assms have x: "0 < x" and y: "0 < y" by simp_all
  have ee: "expo x \<le> expo y" using x assms(2) by (rule expo_mono)
  show ?thesis
  proof (cases "expo x = expo y")
    case True
    have "x / 2 powi expo y \<le> y / 2 powi expo y" using assms(2) by (simp add: divide_right_mono)
    then have "round_half_even (x / 2 powi expo y) \<le> round_half_even (y / 2 powi expo y)" by (rule rhe_mono)
    then have "(of_int (round_half_even (x / 2 powi expo y)) :: rat) \<le> of_int (round_half_even (y / 2 powi expo y))"
      by (simp only: of_int_le_iff)
    then show ?thesis unfolding fl64_pos[OF x] fl64_pos[OF y] True
      by (intro mult_right_mono) simp_all
  next
    case False
    with ee have lt: "expo x < expo y" by simp
    moreover have "- 1074 \<le> expo x" by (simp add: expo_def)
    ultimately have n: "- 1074 \<le> ilog2 y - 52" and ey: "expo y = ilog2 y - 52"
      by (auto simp: expo_def max_def split: if_splits)
    have "fl64 x = of_int (round_half_even (x / 2 powi expo x)) * 2 powi expo x" by (rule fl64_pos[OF x])
    also have "\<dots> \<le> of_int (2 ^ 53) * 2 powi expo x"
      using mantissa_le[OF x] by (intro mult_right_mono) (simp_all only: of_int_le_iff zero_le_power_int zero_le_numeral)
    also have "\<dots> = 2 powi (expo x + 53)" by (simp add: pw53)
    also have "\<dots> \<le> 2 powi (expo y + 52)" using lt by (intro pw_increasing) simp
    also have "\<dots> = of_int (2 ^ 52) * 2 powi expo y" by (simp add: pw52)
    also have "\<dots> \<le> of_int (round_half_even (y / 2 powi expo y)) * 2 powi expo y"
      using mantissa_ge[OF y n] by (intro mult_right_mono) (simp_all only: of_int_le_iff zero_le_power_int zero_le_numeral)
    also have "\<dots> = fl64 y" by (rule fl64_pos[OF y, symmetric])
    finally show ?thesis .
  qed
qed

subsection \<open>The loop of \<^verbatim>\<open>generate_square_nails\<close>\<close>

lemma fl64_one: "fl64 1 = 1"
  using fl64_exact[of 1 0] by simp

lemma py_round_zero: "py_round 0 n = 0"
  by (simp add: py_round_def rhe_of_int[of 0, simplified] fl64_zero round_half_even_def)

lemma py_round_one: "py_round 1 n = 1"
proof -
  have "round_half_even (10 ^ n) = 10 ^ n" using rhe_of_int[of "10 ^ n"] by simp
  then show ?thesis by (simp add: py_round_def fl64_one)
qed

lemma square_nail_on_boundary:
  "fst (square_nail p) = 0 \<or> fst (square_nail p) = 1 \<or> snd (square_nail p) = 0 \<or> snd (square_nail p) = 1"
  by (simp add: square_nail_def square_xy_def Let_def py_round_zero py_round_one)

lemma length_square_loop: "length (square_loop s k p) = k"
  by (induction k arbitrary: p) simp_all

lemma square_loop_nth:
  "i < k \<Longrightarrow> square_loop s k (current_pos_at s j) ! i = square_nail (current_pos_at s (j + i))"
proof (induction k arbitrary: i j)
  case 0 then show ?case by simp
next
  case (Suc k)
  show ?case
  proof (cases i)
    case 0 then show ?thesis by simp
  next
    case (Suc i')
    with Suc.prems have "i' < k" by simp
    from Suc.IH[OF this, of "Suc j"] Suc show ?thesis by simp
  qed
qed

lemma square_loop_boundary:
  "p \<in> set (square_loop s k c) \<Longrightarrow> fst p = 0 \<or> fst p = 1 \<or> snd p = 0 \<or> snd p = 1"
proof (induction k arbitrary: c)
  case 0 then show ?case by simp
next
  case (Suc k)
  from Suc.prems have "p = square_nail c \<or> p \<in> set (square_loop s k (float_add c s))" by simp
  then show ?case
  proof
    assume "p = square_nail c"
    then show ?thesis using square_nail_on_boundary[of c] by simp
  next
    assume "p \<in> set (square_loop s k (float_add c s))"
    then show ?thesis by (rule Suc.IH)
  qed
qed

lemma current_pos_nonneg: "0 \<le> s \<Longrightarrow> 0 \<le> current_pos_at s i"
  by (induction i) (simp_all add: float_add_def fl64_nonneg)

lemma current_pos_fixed: "0 \<le> s \<Longrightarrow> fl64 (current_pos_at s i) = current_pos_at s i"
  by (cases i) (simp_all add: fl64_zero float_add_def fl64_idem current_pos_nonneg)

lemma current_pos_advances:
  assumes "0 \<le> s" shows "current_pos_at s i \<le> current_pos_at s (Suc i)"
proof -
  have "current_pos_at s i = fl64 (current_pos_at s i)" using assms by (simp add: current_pos_fixed)
  also have "\<dots> \<le> fl64 (current_pos_at s i + s)"
    using assms by (intro fl64_mono) (simp_all add: current_pos_nonneg)
  finally show ?thesis by (simp add: float_add_def)
qed

lemma float_of_int_nonneg: "0 \<le> n \<Longrightarrow> float_of_int n = Inr f \<Longrightarrow> 0 \<le> f"
  using fl64_nonneg[of "of_int n"] by (auto simp: float_of_int_def Let_def split: if_splits)

lemma float_of_int_pos:
  assumes "1 \<le> n" "float_of_int n = Inr f" shows "1 \<le> f"
proof -
  have "fl64 1 \<le> fl64 (of_int n)" using assms(1) by (intro fl64_mono) simp_all
  then show ?thesis using assms(2) by (auto simp: float_of_int_def Let_def fl64_one split: if_splits)
qed

lemma square_layout_core:
  assumes "4 \<le> num_nails" "float_of_int num_nails = Inr n"
  shows "\<exists>nails. generate_square_nails num_nails = Inr nails
           \<and> length nails = nat num_nails
           \<and> (\<forall>p \<in> set nails. fst p = 0 \<or> fst p = 1 \<or> snd p = 0 \<or> snd p = 1)
           \<and> (\<forall>i < nat num_nails.
                 nails ! i = square_nail (current_pos_at (float_div 4 n) i)
                 \<and> current_pos_at (float_div 4 n) i \<le> current_pos_at (float_div 4 n) (Suc i))"
proof -
  let ?s = "float_div 4 n"
  have g: "generate_square_nails num_nails = Inr (square_loop ?s (nat num_nails) 0)"
    using assms by (simp add: generate_square_nails_def)
  have "1 \<le> n" using assms by (intro float_of_int_pos[of num_nails]) simp_all
  then have s: "0 \<le> ?s" by (simp add: float_div_def fl64_nonneg)
  have nth: "square_loop ?s (nat num_nails) 0 ! i = square_nail (current_pos_at ?s i)"
    if "i < nat num_nails" for i
    using square_loop_nth[OF that, of ?s 0] by simp
  show ?thesis
    unfolding g using nth current_pos_advances[OF s] square_loop_boundary[of _ ?s "nat num_nails" 0]
    by (auto simp: length_square_loop)
qed

lemma fl64_int: "0 \<le> k \<Longrightarrow> k \<le> 2 ^ 53 \<Longrightarrow> fl64 (of_int k) = of_int k"
  using fl64_exact[of k 0] by simp

lemma float_of_int_small: 
  assumes "0 \<le> k" "k \<le> 2 ^ 53" shows "float_of_int k = Inr (of_int k)"
proof -
  have "(of_int k :: rat) \<le> of_int (2 ^ 53)" using assms(2) by (simp only: of_int_le_iff)
  then have "\<bar>of_int k :: rat\<bar> < 2 ^ 1024" using assms(1) by simp
  then show ?thesis using assms by (simp add: float_of_int_def fl64_int)
qed

lemma float_mod_small: "0 \<le> x \<Longrightarrow> x < w \<Longrightarrow> float_mod x w = x"
proof -
  assume a: "0 \<le> x" "x < w"
  then have "0 \<le> x / w" "x / w < 1" by simp_all
  then have "\<lfloor>x / w\<rfloor> = 0" by (simp add: floor_eq_iff)
  then show ?thesis using a by (auto simp: float_mod_def Let_def)
qed

lemma fl64_small_ints: "fl64 2 = 2" "fl64 3 = 3" "fl64 4 = 4"
  using fl64_int[of 2] fl64_int[of 3] fl64_int[of 4] by simp_all


lemma segments_agree: "square_xy p = closed_form_xy p"
proof -
  consider "p = 1" | "p = 2" | "p = 3" | "p \<noteq> 1" "p \<noteq> 2" "p \<noteq> 3" by blast
  then show ?thesis
  proof cases
    case 1 then show ?thesis by (simp add: square_xy_def closed_form_xy_def float_sub_def fl64_zero)
  next
    case 2 then show ?thesis by (simp add: square_xy_def closed_form_xy_def float_sub_def fl64_zero fl64_one)
  next
    case 3 then show ?thesis by (simp add: square_xy_def closed_form_xy_def float_sub_def fl64_zero fl64_one)
  next
    case 4 then show ?thesis by (auto simp: square_xy_def closed_form_xy_def)
  qed
qed

lemma square_nail_closed:
  "float_mod q 4 = closed_form_position count i \<Longrightarrow> square_nail q = closed_form_nail count i"
  unfolding square_nail_def closed_form_nail_def Let_def
  by (simp only: segments_agree)

lemma exact_positions:
  assumes "0 < count"
    and "\<forall>j \<le> i. fl64 (of_int (int j * 4) / of_int count) = of_int (int j * 4) / of_int count"
    and "j \<le> i"
  shows "current_pos_at (float_div 4 (of_int count)) j = of_int (int j * 4) / of_int count"
  using assms(3)
proof (induction j)
  case 0
  then show ?case by simp
next
  case (Suc j)
  then have IH: "current_pos_at (float_div 4 (of_int count)) j = of_int (int j * 4) / of_int count"
    and le: "Suc j \<le> i" by simp_all
  have "1 \<le> i" using le by simp
  with assms(2) have "fl64 (of_int (int 1 * 4) / of_int count) = of_int (int 1 * 4) / of_int count"
    by blast
  then have s: "float_div 4 (of_int count) = 4 / of_int count" by (simp add: float_div_def)
  have sum: "of_int (int j * 4) / of_int count + 4 / (of_int count :: rat) = of_int (int (Suc j) * 4) / of_int count"
    by (simp add: add_divide_distrib algebra_simps)
  have "current_pos_at (float_div 4 (of_int count)) (Suc j)
      = fl64 (of_int (int j * 4) / of_int count + 4 / of_int count)"
    using IH by (simp add: float_add_def s)
  also have "\<dots> = fl64 (of_int (int (Suc j) * 4) / of_int count)" by (simp only: sum)
  also have "\<dots> = of_int (int (Suc j) * 4) / of_int count" using assms(2) le by blast
  finally show ?case .
qed


lemma half_exact: "fl64 (1 / 2) = 1 / 2" "fl64 (3 / 2) = 3 / 2"
  using fl64_exact[of 1 "- 1"] fl64_exact[of 3 "- 1"] by simp_all


subsection \<open>The conversion of an int to a float\<close>

lemma rhe_below_half:
  assumes "q < of_int m - 1 / 2" shows "round_half_even q \<le> m - 1"
proof -
  have "q < of_int m" using assms by linarith
  then have f: "\<lfloor>q\<rfloor> \<le> m - 1" by (simp add: floor_less_iff)
  show ?thesis
  proof (cases "\<lfloor>q\<rfloor> = m - 1")
    case True
    then have "q - of_int \<lfloor>q\<rfloor> < 1 / 2" using assms by simp
    then show ?thesis using True by (simp add: round_half_even_def Let_def)
  next
    case False
    with f have "\<lfloor>q\<rfloor> + 1 \<le> m - 1" by simp
    then show ?thesis using rhe_cases[of q] by auto
  qed
qed

lemma pow_1023: "fl64 (2 ^ 1023) = 2 ^ 1023"
  using fl64_exact[of 1 1023] by simp

lemma float_of_int_in_range:
  assumes "0 \<le> n" "n < 2 ^ 1024 - 2 ^ 970"
  shows "float_of_int n = Inr (fl64 (of_int n))"
proof -
  let ?x = "of_int n :: rat"
  have x0: "0 \<le> ?x" using assms(1) by simp
  have "fl64 ?x < 2 ^ 1024"
  proof (cases "?x \<le> 2 ^ 1023")
    case True
    then have "fl64 ?x \<le> fl64 (2 ^ 1023)" using x0 by (intro fl64_mono)
    also have "\<dots> = 2 ^ 1023" by (rule pow_1023)
    also have "\<dots> < 2 ^ 1024" by simp
    finally show ?thesis .
  next
    case False
    then have lo: "(2::rat) powi 1023 \<le> ?x" by simp
    have "?x < of_int (2 ^ 1024 - 2 ^ 970)" using assms(2) by (simp only: of_int_less_iff)
    then have hi: "?x < 2 ^ 1024 - 2 ^ 970" by simp
    then have "?x < 2 powi (1023 + 1)" by simp
    with lo have "ilog2 ?x = 1023" by (rule ilog2_unique)
    then have e: "expo ?x = 971" by (simp add: expo_def)
    have x: "0 < ?x" using lo by simp
    have "?x / 2 powi 971 < of_int (2 ^ 53) - 1 / 2" using hi by simp
    then have "round_half_even (?x / 2 powi 971) \<le> 2 ^ 53 - 1" by (rule rhe_below_half)
    then have "(of_int (round_half_even (?x / 2 powi 971)) :: rat) \<le> of_int (2 ^ 53 - 1)"
      by (simp only: of_int_le_iff)
    then have "of_int (round_half_even (?x / 2 powi 971)) * (2::rat) powi 971 \<le> of_int (2 ^ 53 - 1) * 2 powi 971"
      by (intro mult_right_mono) simp_all
    then have "fl64 ?x \<le> of_int (2 ^ 53 - 1) * 2 powi 971" by (simp only: fl64_pos[OF x] e)
    then show ?thesis by simp
  qed
  moreover have "0 \<le> fl64 ?x" using x0 by (rule fl64_nonneg)
  ultimately show ?thesis by (simp add: float_of_int_def)
qed

lemma midpoint_rounds_up: "fl64 (2 ^ 1024 - 2 ^ 970) = 2 ^ 1024"
proof -
  let ?x = "2 ^ 1024 - 2 ^ 970 :: rat"
  have "2 powi 1023 \<le> ?x" "?x < 2 powi (1023 + 1)" by simp_all
  then have "ilog2 ?x = 1023" by (rule ilog2_unique)
  then have e: "expo ?x = 971" by (simp add: expo_def)
  have x: "0 < ?x" by simp
  have q: "?x / 2 powi 971 = 18014398509481983 / 2" by simp
  have "round_half_even (18014398509481983 / 2) = 9007199254740992" by code_simp
  then have r: "round_half_even (?x / 2 powi 971) = 2 ^ 53" by (simp only: q) simp
  show ?thesis by (simp only: fl64_pos[OF x] e r) simp
qed

lemma float_of_int_overflow:
  assumes "2 ^ 1024 - 2 ^ 970 \<le> n"
  shows "float_of_int n = Inl OverflowError"
proof -
  have "(of_int (2 ^ 1024 - 2 ^ 970) :: rat) \<le> of_int n" using assms by (simp only: of_int_le_iff)
  then have "(2 ^ 1024 - 2 ^ 970 :: rat) \<le> of_int n" by simp
  then have "fl64 (2 ^ 1024 - 2 ^ 970) \<le> fl64 (of_int n)" by (intro fl64_mono) simp_all
  then have "2 ^ 1024 \<le> fl64 (of_int n)" by (simp only: midpoint_rounds_up)
  then show ?thesis by (simp add: float_of_int_def)
qed

subsection \<open>The rounding errors of the loop\<close>

text \<open>
  A result below 8 is rounded by at most \<open>2 ^ -51\<close>, half a unit in the last place of the
  floats between 4 and 8. So the spacing is off by at most \<open>2 ^ -51\<close>, and after \<open>i\<close>
  additions \<^verbatim>\<open>current_pos\<close> is off by at most \<open>2 * i * 2 ^ -51\<close> from \<open>i * 4 / count\<close>:
  for a count up to \<open>2 ^ 25\<close> that is less than the spacing itself, so the position grows in
  every round and stays below 4 while nails are placed.
\<close>

lemma rhe_error: "\<bar>of_int (round_half_even q) - q\<bar> \<le> 1 / 2"
proof -
  have "of_int \<lfloor>q\<rfloor> \<le> q" "q < of_int \<lfloor>q\<rfloor> + 1" by linarith+
  then show ?thesis by (auto simp: round_half_even_def Let_def)
qed

lemma fl64_error:
  assumes "0 < q" shows "\<bar>fl64 q - q\<bar> \<le> 2 powi expo q / 2"
proof -
  define y where "y = q / 2 powi expo q"
  have q: "q = y * 2 powi expo q" by (simp add: y_def)
  have "fl64 q - q = of_int (round_half_even y) * 2 powi expo q - y * 2 powi expo q"
    using fl64_pos[OF assms] q by (simp add: y_def)
  also have "\<dots> = (of_int (round_half_even y) - y) * 2 powi expo q" by (simp add: algebra_simps)
  finally have "\<bar>fl64 q - q\<bar> = \<bar>of_int (round_half_even y) - y\<bar> * 2 powi expo q"
    by (simp add: abs_mult)
  also have "\<dots> \<le> (1 / 2) * 2 powi expo q"
    using rhe_error[of y] by (intro mult_right_mono) simp_all
  finally show ?thesis by simp
qed

lemma fl64_error_small:
  assumes "0 \<le> q" "q < 8" shows "\<bar>fl64 q - q\<bar> \<le> 1 / 2 ^ 51"
proof (cases "q = 0")
  case True then show ?thesis by (simp add: fl64_zero)
next
  case False
  with assms have q: "0 < q" by simp
  have "ilog2 q < 3"
  proof (rule ccontr)
    assume "\<not> ilog2 q < 3"
    then have "(2::rat) powi 3 \<le> 2 powi ilog2 q" by (intro pw_increasing) simp
    with ilog2_bounds[OF q] assms(2) show False by simp
  qed
  then have "expo q \<le> - 50" by (simp add: expo_def)
  then have "(2::rat) powi expo q \<le> 2 powi (- 50)" by (rule pw_increasing)
  then have "(2::rat) powi expo q / 2 \<le> 1 / 2 ^ 51" by (simp add: power_int_minus field_simps)
  with fl64_error[OF q] show ?thesis by linarith
qed


lemma spacing_error:
  assumes "4 \<le> N"
  shows "\<bar>float_div 4 N - 4 / N\<bar> \<le> 1 / 2 ^ 51" "0 \<le> float_div 4 N"
proof -
  have q: "0 \<le> 4 / N" "4 / N \<le> 1" using assms by simp_all
  then have "4 / N < 8" by linarith
  with q(1) show "\<bar>float_div 4 N - 4 / N\<bar> \<le> 1 / 2 ^ 51"
    unfolding float_div_def by (rule fl64_error_small)
  show "0 \<le> float_div 4 N" unfolding float_div_def using q(1) by (rule fl64_nonneg)
qed

lemma ideal_position_le:
  assumes "4 \<le> N" "of_nat i \<le> N"
  shows "of_nat i * (4 / N) \<le> (4::rat)" "(0::rat) \<le> of_nat i * (4 / N)"
proof -
  have N: "0 < N" using assms(1) by linarith
  have "of_nat i / N \<le> 1" using assms(2) N by (simp add: divide_le_eq_1)
  then have "4 * (of_nat i / N) \<le> 4 * 1" by (intro mult_left_mono) simp_all
  moreover have "of_nat i * (4 / N) = 4 * (of_nat i / N)" by simp
  ultimately show "of_nat i * (4 / N) \<le> (4::rat)" by linarith
  show "(0::rat) \<le> of_nat i * (4 / N)" using N by simp
qed

lemma drift_bound:
  assumes "N \<le> 2 ^ 25" "of_nat i \<le> (N::rat)"
  shows "2 * of_nat i / 2 ^ 51 \<le> (1::rat) / 2 ^ 25"
proof -
  have "(of_nat i :: rat) \<le> 2 ^ 25" using assms by linarith
  then show ?thesis by simp
qed

lemma acc_step:
  assumes "4 \<le> N" "N \<le> 2 ^ 25" "of_nat i \<le> N"
    and IH: "\<bar>current_pos_at (float_div 4 N) i - of_nat i * (4 / N)\<bar> \<le> 2 * of_nat i / 2 ^ 51"
  shows "\<bar>float_add (current_pos_at (float_div 4 N) i) (float_div 4 N)
            - (current_pos_at (float_div 4 N) i + float_div 4 N)\<bar> \<le> 1 / 2 ^ 51"
proof -
  define s where "s = float_div 4 N"
  define a where "a = current_pos_at s i"
  define t :: rat where "t = of_nat i * (4 / N)"
  define D :: rat where "D = 2 * of_nat i / 2 ^ 51"
  define u :: rat where "u = 1 / 2 ^ 51"
  define d where "d = 4 / N"
  have s: "\<bar>s - d\<bar> \<le> u" "0 \<le> s" using spacing_error[OF assms(1)] by (simp_all add: s_def d_def u_def)
  have t: "t \<le> 4" using ideal_position_le[OF assms(1,3)] by (simp add: t_def)
  have D: "D \<le> 1" using drift_bound[OF assms(2,3)] by (simp add: D_def)
  have u: "u \<le> 1" by (simp add: u_def)
  have d: "d \<le> 1" using assms(1) by (simp add: d_def)
  have a0: "0 \<le> a" unfolding a_def using s(2) by (rule current_pos_nonneg)
  have IH': "\<bar>a - t\<bar> \<le> D" using IH by (simp add: a_def s_def t_def D_def)
  have "0 \<le> a + s" using a0 s(2) by linarith
  moreover have "a + s < 8" using IH' s(1) t D u d by linarith
  ultimately have "\<bar>fl64 (a + s) - (a + s)\<bar> \<le> 1 / 2 ^ 51" by (rule fl64_error_small)
  then show ?thesis by (simp add: float_add_def a_def s_def)
qed

lemma acc_error:
  assumes "4 \<le> N" "N \<le> 2 ^ 25" "of_nat i \<le> N"
  shows "\<bar>current_pos_at (float_div 4 N) i - of_nat i * (4 / N)\<bar> \<le> 2 * of_nat i / 2 ^ 51"
  using assms(3)
proof (induction i)
  case 0
  then show ?case by simp
next
  case (Suc i)
  from Suc.prems have i: "of_nat i \<le> N" by simp
  note IH = Suc.IH[OF i]
  define s where "s = float_div 4 N"
  define a where "a = current_pos_at s i"
  define a' where "a' = current_pos_at s (Suc i)"
  define t :: rat where "t = of_nat i * (4 / N)"
  define D :: rat where "D = 2 * of_nat i / 2 ^ 51"
  define u :: rat where "u = 1 / 2 ^ 51"
  define d where "d = 4 / N"
  have r: "\<bar>a' - (a + s)\<bar> \<le> u"
    using acc_step[OF assms(1,2) i IH] by (simp add: a'_def a_def s_def u_def)
  have s: "\<bar>s - d\<bar> \<le> u" using spacing_error[OF assms(1)] by (simp_all add: s_def d_def u_def)
  have IH': "\<bar>a - t\<bar> \<le> D" using IH by (simp add: a_def s_def t_def D_def)
  have "\<bar>a' - (t + d)\<bar> \<le> D + 2 * u" using r s IH' by linarith
  moreover have "of_nat (Suc i) * (4 / N) = t + d" by (simp add: t_def d_def add_divide_distrib algebra_simps)
  moreover have "2 * of_nat (Suc i) / 2 ^ 51 = D + 2 * u" by (simp add: D_def u_def field_simps)
  ultimately show ?case by (simp only: a'_def s_def)
qed


lemma spacing_lower:
  assumes "4 \<le> N" "N \<le> 2 ^ 25" shows "(4::rat) / 2 ^ 25 \<le> 4 / N"
  using assms by (intro divide_left_mono) simp_all

lemma acc_below4:
  assumes "4 \<le> N" "N \<le> 2 ^ 25" "of_nat (Suc i) \<le> N"
  shows "current_pos_at (float_div 4 N) i < 4"
proof -
  from assms(3) have i: "of_nat i \<le> N" by simp
  define a where "a = current_pos_at (float_div 4 N) i"
  define t :: rat where "t = of_nat i * (4 / N)"
  define D :: rat where "D = 2 * of_nat i / 2 ^ 51"
  define d where "d = 4 / N"
  define c :: rat where "c = 1 / 2 ^ 25"
  have e: "\<bar>a - t\<bar> \<le> D" using acc_error[OF assms(1,2) i] by (simp add: a_def t_def D_def)
  have "of_nat (Suc i) * (4 / N) = t + d" by (simp add: t_def d_def add_divide_distrib algebra_simps)
  with ideal_position_le(1)[OF assms(1,3)] have t: "t + d \<le> 4" by simp
  have D: "D \<le> c" using drift_bound[OF assms(2) i] by (simp add: D_def c_def)
  have d: "4 * c \<le> d" using spacing_lower[OF assms(1,2)] by (simp add: c_def d_def)
  have c: "0 < c" by (simp add: c_def)
  show ?thesis unfolding a_def[symmetric] using e t D d c by linarith
qed

lemma acc_strict:
  assumes "4 \<le> N" "N \<le> 2 ^ 25" "of_nat i \<le> N"
  shows "current_pos_at (float_div 4 N) i < current_pos_at (float_div 4 N) (Suc i)"
proof -
  define s where "s = float_div 4 N"
  define a where "a = current_pos_at s i"
  define a' where "a' = current_pos_at s (Suc i)"
  define u :: rat where "u = 1 / 2 ^ 51"
  define d where "d = 4 / N"
  define c :: rat where "c = 1 / 2 ^ 25"
  have r: "\<bar>a' - (a + s)\<bar> \<le> u"
    using acc_step[OF assms acc_error[OF assms]] by (simp add: a'_def a_def s_def u_def)
  have s: "\<bar>s - d\<bar> \<le> u" using spacing_error[OF assms(1)] by (simp_all add: s_def d_def u_def)
  have d: "4 * c \<le> d" using spacing_lower[OF assms(1,2)] by (simp add: c_def d_def)
  have c: "2 * u < 4 * c" by (simp add: c_def u_def)
  show ?thesis unfolding a_def[symmetric] a'_def[symmetric] s_def[symmetric] using r s d c by linarith
qed

lemma below_four_exact: "fl64 (4 - 1 / 2 ^ 23) = 4 - 1 / 2 ^ 23"
proof -
  have "(4::rat) - 1 / 2 ^ 23 = of_int 33554431 * 2 powi (- 23)" by (simp add: power_int_minus)
  moreover have "fl64 (of_int 33554431 * 2 powi (- 23)) = of_int 33554431 * 2 powi (- 23)"
    by (rule fl64_exact) simp_all
  ultimately show ?thesis by (simp only:)
qed

lemma closed_pos:
  assumes "4 \<le> count" "count \<le> 2 ^ 25" "i < nat count"
  shows "closed_form_position count i = fl64 (of_nat i * (4 / of_int count))"
    and "0 \<le> closed_form_position count i"
    and "closed_form_position count i < 4"
    and "\<bar>closed_form_position count i - of_nat i * (4 / of_int count)\<bar> \<le> 1 / 2 ^ 51"
proof -
  define N :: rat where "N = of_int count"
  define t :: rat where "t = of_nat i * (4 / N)"
  have N: "4 \<le> N" "N \<le> 2 ^ 25"
  proof -
    have "(of_int 4 :: rat) \<le> of_int count" using assms(1) by (simp only: of_int_le_iff)
    then show "4 \<le> N" by (simp add: N_def)
    have "(of_int count :: rat) \<le> of_int (2 ^ 25)" using assms(2) by (simp only: of_int_le_iff)
    then show "N \<le> 2 ^ 25" by (simp add: N_def)
  qed
  have "int (Suc i) \<le> count" using assms(3) by linarith
  then have "(of_int (int (Suc i)) :: rat) \<le> of_int count" by (simp only: of_int_le_iff)
  then have i: "of_nat (Suc i) \<le> N" by (simp add: N_def)
  have q: "of_int (int i * 4) / of_int count = t" by (simp add: t_def N_def)
  have "of_nat (Suc i) * (4 / N) = t + 4 / N" by (simp add: t_def add_divide_distrib algebra_simps)
  with ideal_position_le(1)[OF N(1) i] have "t + 4 / N \<le> 4" by simp
  moreover have "(4::rat) / 2 ^ 25 = 1 / 2 ^ 23" by simp
  ultimately have hi: "t \<le> 4 - 1 / 2 ^ 23" using spacing_lower[OF N] by linarith
  have t0: "0 \<le> t" using N(1) by (simp add: t_def)
  have "fl64 t \<le> fl64 (4 - 1 / 2 ^ 23)" using t0 hi by (rule fl64_mono)
  then have "fl64 t \<le> 4 - 1 / 2 ^ 23" by (simp only: below_four_exact)
  then have lt: "fl64 t < 4" by simp
  have f0: "0 \<le> fl64 t" using t0 by (rule fl64_nonneg)
  have p: "closed_form_position count i = fl64 t"
    unfolding closed_form_position_def q using f0 lt by (rule float_mod_small)
  have "t < 8" using hi by simp
  with t0 have e: "\<bar>fl64 t - t\<bar> \<le> 1 / 2 ^ 51" by (rule fl64_error_small)
  show "closed_form_position count i = fl64 (of_nat i * (4 / of_int count))" using p by (simp add: t_def N_def)
  show "0 \<le> closed_form_position count i" using p f0 by simp
  show "closed_form_position count i < 4" using p lt by simp
  show "\<bar>closed_form_position count i - of_nat i * (4 / of_int count)\<bar> \<le> 1 / 2 ^ 51"
    using p e by (simp add: t_def N_def)
qed

lemma sub_chain_error:
  assumes "0 \<le> v" "v \<le> 1"
  shows "\<bar>fl64 (1 - fl64 v) - (1 - v)\<bar> \<le> 2 / 2 ^ 51" "0 \<le> fl64 (1 - fl64 v)"
proof -
  define u :: rat where "u = 1 / 2 ^ 51"
  have "v < 8" using assms by linarith
  with assms(1) have e1: "\<bar>fl64 v - v\<bar> \<le> u" unfolding u_def by (rule fl64_error_small)
  have "fl64 v \<le> fl64 1" using assms by (rule fl64_mono)
  then have le: "fl64 v \<le> 1" by (simp add: fl64_one)
  have ge: "0 \<le> fl64 v" using assms(1) by (rule fl64_nonneg)
  have a: "0 \<le> 1 - fl64 v" using le by simp
  have "1 - fl64 v < 8" using ge by linarith
  with a have e2: "\<bar>fl64 (1 - fl64 v) - (1 - fl64 v)\<bar> \<le> u" unfolding u_def by (rule fl64_error_small)
  have "\<bar>fl64 (1 - fl64 v) - (1 - v)\<bar> \<le> 2 * u" using e1 e2 by linarith
  then show "\<bar>fl64 (1 - fl64 v) - (1 - v)\<bar> \<le> 2 / 2 ^ 51" by (simp add: u_def)
  show "0 \<le> fl64 (1 - fl64 v)" using a by (rule fl64_nonneg)
qed

lemma xy_error:
  assumes "0 \<le> p" "p < 4"
  shows "\<bar>fst (square_xy p) - fst (perimeter_point p)\<bar> \<le> 2 / 2 ^ 51"
    and "\<bar>snd (square_xy p) - snd (perimeter_point p)\<bar> \<le> 2 / 2 ^ 51"
    and "0 \<le> fst (square_xy p)" and "0 \<le> snd (square_xy p)"
proof -
  consider "p \<le> 1" | "1 < p" "p \<le> 2" | "2 < p" "p \<le> 3" | "3 < p" by linarith
  then have "\<bar>fst (square_xy p) - fst (perimeter_point p)\<bar> \<le> 2 / 2 ^ 51
      \<and> \<bar>snd (square_xy p) - snd (perimeter_point p)\<bar> \<le> 2 / 2 ^ 51
      \<and> 0 \<le> fst (square_xy p) \<and> 0 \<le> snd (square_xy p)"
  proof cases
    case 1
    then show ?thesis using assms by (simp add: square_xy_def perimeter_point_def)
  next
    case 2
    have v: "0 \<le> p - 1" "p - 1 < 8" using 2 by linarith+
    have "\<bar>fl64 (p - 1) - (p - 1)\<bar> \<le> 1 / 2 ^ 51" using v by (rule fl64_error_small)
    then have "\<bar>fl64 (p - 1) - (p - 1)\<bar> \<le> 2 / 2 ^ 51" by simp
    moreover have "0 \<le> fl64 (p - 1)" using v(1) by (rule fl64_nonneg)
    ultimately show ?thesis using 2 by (simp add: square_xy_def perimeter_point_def float_sub_def)
  next
    case 3
    have v: "0 \<le> p - 2" "p - 2 \<le> 1" using 3 by linarith+
    have "(1::rat) - (p - 2) = 3 - p" by simp
    with sub_chain_error[OF v] show ?thesis using 3
      by (simp add: square_xy_def perimeter_point_def float_sub_def)
  next
    case 4
    have v: "0 \<le> p - 3" "p - 3 \<le> 1" using 4 assms by linarith+
    have "(1::rat) - (p - 3) = 4 - p" by simp
    with sub_chain_error[OF v] show ?thesis using 4
      by (simp add: square_xy_def perimeter_point_def float_sub_def)
  qed
  then show "\<bar>fst (square_xy p) - fst (perimeter_point p)\<bar> \<le> 2 / 2 ^ 51"
    and "\<bar>snd (square_xy p) - snd (perimeter_point p)\<bar> \<le> 2 / 2 ^ 51"
    and "0 \<le> fst (square_xy p)" and "0 \<le> snd (square_xy p)" by simp_all
qed

lemma perimeter_lipschitz:
  assumes "0 \<le> p" "p \<le> 4" "0 \<le> q" "q \<le> 4"
  shows "\<bar>fst (perimeter_point p) - fst (perimeter_point q)\<bar> \<le> \<bar>p - q\<bar>"
    and "\<bar>snd (perimeter_point p) - snd (perimeter_point q)\<bar> \<le> \<bar>p - q\<bar>"
  using assms by (auto simp: perimeter_point_def)

lemma rat_count:
  assumes "4 \<le> count" "count \<le> 2 ^ 25" "i < nat count"
  shows "(4::rat) \<le> of_int count" "(of_int count :: rat) \<le> 2 ^ 25"
    "(of_nat (Suc i) :: rat) \<le> of_int count" "(of_nat i :: rat) \<le> of_int count"
proof -
  have "(of_int 4 :: rat) \<le> of_int count" using assms(1) by (simp only: of_int_le_iff)
  then show "(4::rat) \<le> of_int count" by simp
  have "(of_int count :: rat) \<le> of_int (2 ^ 25)" using assms(2) by (simp only: of_int_le_iff)
  then show "(of_int count :: rat) \<le> 2 ^ 25" by simp
  have "int (Suc i) \<le> count" using assms(3) by linarith
  then have "(of_int (int (Suc i)) :: rat) \<le> of_int count" by (simp only: of_int_le_iff)
  then show "(of_nat (Suc i) :: rat) \<le> of_int count" by simp
  then show "(of_nat i :: rat) \<le> of_int count" by simp
qed

lemma perimeter_range:
  "0 \<le> t \<Longrightarrow> t \<le> 4 \<Longrightarrow>
     0 \<le> fst (perimeter_point t) \<and> fst (perimeter_point t) \<le> 1
     \<and> 0 \<le> snd (perimeter_point t) \<and> snd (perimeter_point t) \<le> 1"
  by (auto simp: perimeter_point_def)

lemma py_round_error:
  assumes "0 \<le> x" "x \<le> 2"
  shows "\<bar>py_round x 6 - x\<bar> \<le> 1 / (2 * 10 ^ 6) + 1 / 2 ^ 51"
proof -
  define k where "k = round_half_even (x * 10 ^ 6)"
  define M :: rat where "M = 10 ^ 6"
  define z :: rat where "z = of_int k / 10 ^ 6"
  have M: "0 < M" by (simp add: M_def)
  have "\<bar>of_int k - x * M\<bar> \<le> 1 / 2" unfolding k_def M_def by (rule rhe_error)
  moreover have "z * M = of_int k" by (simp add: z_def M_def)
  moreover have "(z - x) * M = z * M - x * M" by (rule left_diff_distrib)
  ultimately have "\<bar>(z - x) * M\<bar> \<le> 1 / 2" by (simp only:)
  moreover have "\<bar>(z - x) * M\<bar> = \<bar>z - x\<bar> * \<bar>M\<bar>" by (rule abs_mult)
  moreover have "\<bar>M\<bar> = M" using M by simp
  ultimately have "\<bar>z - x\<bar> * M \<le> 1 / 2" by (simp only:)
  then have "\<bar>z - x\<bar> \<le> (1 / 2) / M" using M by (simp add: pos_le_divide_eq)
  then have e: "\<bar>z - x\<bar> \<le> 1 / (2 * 10 ^ 6)" by (simp add: M_def)
  have "(of_int 0 :: rat) \<le> x * 10 ^ 6" using assms(1) by simp
  then have "0 \<le> k" unfolding k_def by (rule rhe_ge_int)
  then have z0: "0 \<le> z" by (simp add: z_def)
  have "(1::rat) / (2 * 10 ^ 6) \<le> 1" by simp
  with e assms(2) have "z < 8" by linarith
  with z0 have "\<bar>fl64 z - z\<bar> \<le> 1 / 2 ^ 51" by (rule fl64_error_small)
  moreover have "py_round x 6 = fl64 z" by (simp add: py_round_def z_def k_def)
  ultimately show ?thesis using e by linarith
qed

lemma rhe_close:
  assumes "\<bar>a - b\<bar> < 1" shows "\<bar>round_half_even a - round_half_even b\<bar> \<le> 1"
proof -
  have "\<bar>(of_int (round_half_even a) :: rat) - of_int (round_half_even b)\<bar> < 2"
    using rhe_error[of a] rhe_error[of b] assms by linarith
  then have "\<bar>(of_int (round_half_even a - round_half_even b) :: rat)\<bar> < of_int 2" by simp
  then have "\<bar>round_half_even a - round_half_even b\<bar> < 2"
    by (simp only: of_int_abs[symmetric] of_int_less_iff)
  then show ?thesis by simp
qed

lemma loop_position:
  assumes "4 \<le> count" "count \<le> 2 ^ 25" "i < nat count"
  shows "0 \<le> current_pos_at (float_div 4 (of_int count)) i"
    and "current_pos_at (float_div 4 (of_int count)) i < 4"
    and "float_mod (current_pos_at (float_div 4 (of_int count)) i) 4
           = current_pos_at (float_div 4 (of_int count)) i"
    and "\<bar>current_pos_at (float_div 4 (of_int count)) i - of_nat i * (4 / of_int count)\<bar> \<le> 1 / 2 ^ 25"
    and "current_pos_at (float_div 4 (of_int count)) i
           < current_pos_at (float_div 4 (of_int count)) (Suc i)"
proof -
  note N = rat_count[OF assms]
  show p0: "0 \<le> current_pos_at (float_div 4 (of_int count)) i"
    using spacing_error(2)[OF N(1)] by (rule current_pos_nonneg)
  show p4: "current_pos_at (float_div 4 (of_int count)) i < 4"
    using N(1,2,3) by (rule acc_below4)
  show "float_mod (current_pos_at (float_div 4 (of_int count)) i) 4
           = current_pos_at (float_div 4 (of_int count)) i"
    using p0 p4 by (rule float_mod_small)
  show "\<bar>current_pos_at (float_div 4 (of_int count)) i - of_nat i * (4 / of_int count)\<bar> \<le> 1 / 2 ^ 25"
    using acc_error[OF N(1,2,4)] drift_bound[OF N(2,4)] by linarith
  show "current_pos_at (float_div 4 (of_int count)) i
           < current_pos_at (float_div 4 (of_int count)) (Suc i)"
    using N(1,2,4) by (rule acc_strict)
qed

lemma raw_near_ideal:
  assumes "0 \<le> p" "p < 4" "0 \<le> t" "t \<le> 4" "\<bar>p - t\<bar> \<le> \<delta>"
  shows "\<bar>fst (square_xy p) - fst (perimeter_point t)\<bar> \<le> \<delta> + 2 / 2 ^ 51"
    and "\<bar>snd (square_xy p) - snd (perimeter_point t)\<bar> \<le> \<delta> + 2 / 2 ^ 51"
proof -
  have p4: "p \<le> 4" using assms(2) by simp
  note l = perimeter_lipschitz[OF assms(1) p4 assms(3,4)]
  note e = xy_error[OF assms(1,2)]
  show "\<bar>fst (square_xy p) - fst (perimeter_point t)\<bar> \<le> \<delta> + 2 / 2 ^ 51"
    using l(1) e(1) assms(5) by linarith
  show "\<bar>snd (square_xy p) - snd (perimeter_point t)\<bar> \<le> \<delta> + 2 / 2 ^ 51"
    using l(2) e(2) assms(5) by linarith
qed

lemma rounded_near_ideal:
  assumes "0 \<le> x" "0 \<le> X" "X \<le> 1" "\<bar>x - X\<bar> \<le> 1 / 2 ^ 25 + 2 / 2 ^ 51"
  shows "\<bar>py_round x 6 - X\<bar> \<le> 6 / 10 ^ 7"
proof -
  define c :: rat where "c = 1 / 2 ^ 25 + 2 / 2 ^ 51"
  define r :: rat where "r = 1 / (2 * 10 ^ 6) + 1 / 2 ^ 51"
  have c: "c \<le> 1" "c + r \<le> 6 / 10 ^ 7" by (simp_all add: c_def r_def)
  have a: "\<bar>x - X\<bar> \<le> c" using assms(4) by (simp add: c_def)
  then have "x \<le> 2" using assms(3) c(1) by linarith
  with assms(1) have "\<bar>py_round x 6 - x\<bar> \<le> r" unfolding r_def by (rule py_round_error)
  with a c(2) show ?thesis by linarith
qed

lemma nail_near_ideal:
  assumes "4 \<le> count" "count \<le> 2 ^ 25" "i < nat count"
  shows "\<bar>fst (square_nail (current_pos_at (float_div 4 (of_int count)) i))
            - fst (perimeter_point (of_nat i * (4 / of_int count)))\<bar> \<le> 6 / 10 ^ 7"
    and "\<bar>snd (square_nail (current_pos_at (float_div 4 (of_int count)) i))
            - snd (perimeter_point (of_nat i * (4 / of_int count)))\<bar> \<le> 6 / 10 ^ 7"
proof -
  note N = rat_count[OF assms]
  note p = loop_position[OF assms]
  note t = ideal_position_le[OF N(1,4)]
  note n = raw_near_ideal[OF p(1,2) t(2,1) p(4)]
  note x = xy_error(3,4)[OF p(1,2)]
  note X = perimeter_range[OF t(2,1)]
  have "\<bar>py_round (fst (square_xy (current_pos_at (float_div 4 (of_int count)) i))) 6
            - fst (perimeter_point (of_nat i * (4 / of_int count)))\<bar> \<le> 6 / 10 ^ 7"
    using x(1) X n(1) by (intro rounded_near_ideal) simp_all
  then show "\<bar>fst (square_nail (current_pos_at (float_div 4 (of_int count)) i))
            - fst (perimeter_point (of_nat i * (4 / of_int count)))\<bar> \<le> 6 / 10 ^ 7"
    by (simp only: square_nail_def Let_def p(3) fst_conv)
  have "\<bar>py_round (snd (square_xy (current_pos_at (float_div 4 (of_int count)) i))) 6
            - snd (perimeter_point (of_nat i * (4 / of_int count)))\<bar> \<le> 6 / 10 ^ 7"
    using x(2) X n(2) by (intro rounded_near_ideal) simp_all
  then show "\<bar>snd (square_nail (current_pos_at (float_div 4 (of_int count)) i))
            - snd (perimeter_point (of_nat i * (4 / of_int count)))\<bar> \<le> 6 / 10 ^ 7"
    by (simp only: square_nail_def Let_def p(3) snd_conv)
qed

lemma decimals_close:
  assumes "\<bar>x - X\<bar> \<le> 1 / 2 ^ 25 + 2 / 2 ^ 51" "\<bar>x' - X\<bar> \<le> 1 / 2 ^ 51 + 2 / 2 ^ 51"
  shows "\<bar>round_half_even (x * 10 ^ 6) - round_half_even (x' * 10 ^ 6)\<bar> \<le> 1"
proof -
  define c :: rat where "c = 1 / 2 ^ 25 + 2 / 2 ^ 51"
  define c' :: rat where "c' = 1 / 2 ^ 51 + 2 / 2 ^ 51"
  have c: "(c + c') * 10 ^ 6 < 1" by (simp add: c_def c'_def)
  have "\<bar>x - X\<bar> \<le> c" "\<bar>x' - X\<bar> \<le> c'" using assms by (simp_all add: c_def c'_def)
  then have "\<bar>x - x'\<bar> \<le> c + c'" by linarith
  then have "\<bar>x - x'\<bar> * 10 ^ 6 \<le> (c + c') * 10 ^ 6" by (intro mult_right_mono) simp_all
  moreover have "\<bar>x * 10 ^ 6 - x' * 10 ^ 6\<bar> = \<bar>x - x'\<bar> * 10 ^ 6"
  proof -
    have "x * 10 ^ 6 - x' * 10 ^ 6 = (x - x') * 10 ^ 6" by (rule left_diff_distrib[symmetric])
    moreover have "\<bar>(x - x') * 10 ^ 6\<bar> = \<bar>x - x'\<bar> * \<bar>10 ^ 6\<bar>" by (rule abs_mult)
    moreover have "\<bar>(10::rat) ^ 6\<bar> = 10 ^ 6" by simp
    ultimately show ?thesis by (simp only:)
  qed
  ultimately have "\<bar>x * 10 ^ 6 - x' * 10 ^ 6\<bar> < 1" using c by linarith
  then show ?thesis by (rule rhe_close)
qed

lemma nails_one_unit_apart:
  assumes "4 \<le> count" "count \<le> 2 ^ 25" "i < nat count"
  shows "\<exists>k l k' l'.
           square_nail (current_pos_at (float_div 4 (of_int count)) i)
             = (fl64 (of_int k / 10 ^ 6), fl64 (of_int l / 10 ^ 6))
           \<and> closed_form_nail count i = (fl64 (of_int k' / 10 ^ 6), fl64 (of_int l' / 10 ^ 6))
           \<and> \<bar>k - k'\<bar> \<le> 1 \<and> \<bar>l - l'\<bar> \<le> 1"
proof -
  let ?p = "current_pos_at (float_div 4 (of_int count)) i"
  let ?q = "closed_form_position count i"
  let ?t = "of_nat i * (4 / of_int count) :: rat"
  note N = rat_count[OF assms]
  note p = loop_position[OF assms]
  note q = closed_pos[OF assms]
  note t = ideal_position_le[OF N(1,4)]
  note a = raw_near_ideal[OF p(1,2) t(2,1) p(4)]
  note b = raw_near_ideal[OF q(2,3) t(2,1) q(4)]
  have k: "\<bar>round_half_even (fst (square_xy ?p) * 10 ^ 6)
             - round_half_even (fst (square_xy ?q) * 10 ^ 6)\<bar> \<le> 1"
    using a(1) b(1) by (rule decimals_close)
  have l: "\<bar>round_half_even (snd (square_xy ?p) * 10 ^ 6)
             - round_half_even (snd (square_xy ?q) * 10 ^ 6)\<bar> \<le> 1"
    using a(2) b(2) by (rule decimals_close)
  have n: "square_nail ?p = (fl64 (of_int (round_half_even (fst (square_xy ?p) * 10 ^ 6)) / 10 ^ 6),
                           fl64 (of_int (round_half_even (snd (square_xy ?p) * 10 ^ 6)) / 10 ^ 6))"
    by (simp only: square_nail_def Let_def p(3) py_round_def)
  have c: "closed_form_nail count i
             = (fl64 (of_int (round_half_even (fst (square_xy ?q) * 10 ^ 6)) / 10 ^ 6),
                fl64 (of_int (round_half_even (snd (square_xy ?q) * 10 ^ 6)) / 10 ^ 6))"
    by (simp only: closed_form_nail_def Let_def segments_agree[symmetric] py_round_def)
  from n c k l show ?thesis by blast
qed

lemma nail_of_square:
  assumes "4 \<le> count" "count \<le> 2 ^ 53" "i < nat count"
  shows "nail_of (generate_square_nails count) i
           = Some (square_nail (current_pos_at (float_div 4 (of_int count)) i))"
proof -
  have f: "float_of_int count = Inr (of_int count)" using assms(1,2) by (intro float_of_int_small) simp_all
  have g: "generate_square_nails count = Inr (square_loop (float_div 4 (of_int count)) (nat count) 0)"
    using assms(1) by (simp add: generate_square_nails_def f)
  have "square_loop (float_div 4 (of_int count)) (nat count) 0 ! i
          = square_nail (current_pos_at (float_div 4 (of_int count)) i)"
    using square_loop_nth[OF assms(3), of "float_div 4 (of_int count)" 0] by simp
  then show ?thesis using assms(3) by (simp add: nail_of_def g length_square_loop)
qed

subsection \<open>Evaluation at four nails and at 4608 nails\<close>

lemma four_nails: "generate_square_nails 4 = Inr [(0, 0), (1, 0), (1, 1), (0, 1)]"
proof -
  have f: "float_of_int 4 = Inr 4" using float_of_int_small[of 4] by simp
  have m: "float_mod 0 4 = 0" "float_mod 1 4 = 1" "float_mod 2 4 = 2" "float_mod 3 4 = 3"
    by (simp_all add: float_mod_small)
  show ?thesis
    by (simp add: generate_square_nails_def f float_div_def float_add_def float_sub_def fl64_one
        fl64_zero fl64_small_ints eval_nat_numeral square_nail_def square_xy_def m py_round_zero py_round_one)
qed

lemma drift_4608_9:
  "current_pos_at (float_div 4 4608) 9 = 4503599627370497 / 576460752303423488"
proof -
  have s: "float_div 4 4608 = 2001599834386887 / 2305843009213693952"
    unfolding float_div_def by code_simp
  have a1: "float_add (0) (2001599834386887 / 2305843009213693952) = 2001599834386887 / 2305843009213693952"
    unfolding float_add_def by code_simp
  have a2: "float_add (2001599834386887 / 2305843009213693952) (2001599834386887 / 2305843009213693952) = 2001599834386887 / 1152921504606846976"
    unfolding float_add_def by code_simp
  have a3: "float_add (2001599834386887 / 1152921504606846976) (2001599834386887 / 2305843009213693952) = 6004799503160661 / 2305843009213693952"
    unfolding float_add_def by code_simp
  have a4: "float_add (6004799503160661 / 2305843009213693952) (2001599834386887 / 2305843009213693952) = 2001599834386887 / 576460752303423488"
    unfolding float_add_def by code_simp
  have a5: "float_add (2001599834386887 / 576460752303423488) (2001599834386887 / 2305843009213693952) = 2501999792983609 / 576460752303423488"
    unfolding float_add_def by code_simp
  have a6: "float_add (2501999792983609 / 576460752303423488) (2001599834386887 / 2305843009213693952) = 3002399751580331 / 576460752303423488"
    unfolding float_add_def by code_simp
  have a7: "float_add (3002399751580331 / 576460752303423488) (2001599834386887 / 2305843009213693952) = 3502799710177053 / 576460752303423488"
    unfolding float_add_def by code_simp
  have a8: "float_add (3502799710177053 / 576460752303423488) (2001599834386887 / 2305843009213693952) = 4003199668773775 / 576460752303423488"
    unfolding float_add_def by code_simp
  have a9: "float_add (4003199668773775 / 576460752303423488) (2001599834386887 / 2305843009213693952) = 4503599627370497 / 576460752303423488"
    unfolding float_add_def by code_simp
  show ?thesis
    unfolding s by (simp add: eval_nat_numeral a1 a2 a3 a4 a5 a6 a7 a8 a9)
qed

lemma decimal_7813: "fl64 (7813 / 1000000) = 562985982218331 / 72057594037927936"
  by code_simp

lemma decimal_7812: "fl64 (7812 / 1000000) = 9006622793988689 / 1152921504606846976"
  by code_simp

lemma drifted_nail: "square_nail (4503599627370497 / 576460752303423488) = (fl64 (7813 / 1000000), 0)"
proof -
  have m: "float_mod (4503599627370497 / 576460752303423488) 4 = 4503599627370497 / 576460752303423488" by (simp add: float_mod_small)
  have r: "py_round (4503599627370497 / 576460752303423488) 6 = 562985982218331 / 72057594037927936" unfolding py_round_def by code_simp
  show ?thesis unfolding decimal_7813 by (simp add: square_nail_def square_xy_def m r py_round_zero)
qed

lemma closed_nail: "closed_form_nail 4608 9 = (fl64 (7812 / 1000000), 0)"
proof -
  have e: "fl64 (of_int (int 9 * 4) / of_int 4608) = 1 / 128" by code_simp
  have m: "float_mod (1 / 128) 4 = 1 / 128" by (simp add: float_mod_small)
  have r: "py_round (1 / 128) 6 = 9006622793988689 / 1152921504606846976" unfolding py_round_def by code_simp
  show ?thesis unfolding decimal_7812 closed_form_nail_def closed_form_position_def e m
    by (simp add: closed_form_xy_def r py_round_zero)
qed

lemma rounded_differ: "fl64 (7813 / 1000000) \<noteq> fl64 (7812 / 1000000)"
  unfolding decimal_7813 decimal_7812 by simp

subsection \<open>Claims about the generator\<close>

text \<open>
  C2, as the code has it. The claim fails for a count that no float holds:
  \<^verbatim>\<open>perimeter / num_nails\<close> on line 43 converts the count to a float, and for
  \<open>2 ^ 1024\<close> the conversion raises OverflowError, so no layout is returned.
\<close>

theorem square_nails_overflow: "generate_square_nails (2 ^ 1024) = Inl OverflowError"
proof -
  have "fl64 (of_int 1 * 2 powi 1024) = of_int 1 * 2 powi 1024" by (rule fl64_exact) simp_all
  then have "fl64 (of_int (2 ^ 1024)) = 2 ^ 1024" by simp
  then show ?thesis by (simp add: generate_square_nails_def float_of_int_def)
qed


text \<open>
  C2, amended. For every count from 4 up to the last one a float holds (below
  \<open>2 ^ 1024 - 2 ^ 970\<close>) the call returns exactly that many points; every point has a
  coordinate that is exactly 0 or exactly 1; point \<open>i\<close> is the nail of line 48 to 67 at
  the value \<^verbatim>\<open>current_pos\<close> has in round \<open>i\<close>; and that value never decreases from one
  round to the next. For a count up to \<open>2 ^ 25\<close> more holds: \<^verbatim>\<open>current_pos\<close> grows
  strictly from round to round and stays below 4, so the walk along the perimeter never
  wraps, and each coordinate of point \<open>i\<close> is within \<open>6 * 10 ^ -7\<close> of the point at
  distance \<open>i * 4 / count\<close> along the perimeter. From \<open>2 ^ 1024 - 2 ^ 970\<close> on the call
  raises OverflowError. The layout of four nails is exactly \<open>(0,0)\<close>, \<open>(1,0)\<close>,
  \<open>(1,1)\<close>, \<open>(0,1)\<close>.
\<close>

theorem square_nails_layout:
  "(4 \<le> num_nails \<longrightarrow> num_nails < 2 ^ 1024 - 2 ^ 970 \<longrightarrow>
      (\<exists>nails. generate_square_nails num_nails = Inr nails
         \<and> length nails = nat num_nails
         \<and> (\<forall>p \<in> set nails. fst p = 0 \<or> fst p = 1 \<or> snd p = 0 \<or> snd p = 1)
         \<and> (\<forall>i < nat num_nails.
               nails ! i = square_nail (current_pos_at (float_div 4 (fl64 (of_int num_nails))) i)
               \<and> current_pos_at (float_div 4 (fl64 (of_int num_nails))) i
                   \<le> current_pos_at (float_div 4 (fl64 (of_int num_nails))) (Suc i))))
   \<and> (4 \<le> num_nails \<longrightarrow> num_nails \<le> 2 ^ 25 \<longrightarrow>
      (\<forall>i < nat num_nails. \<exists>x y.
          nail_of (generate_square_nails num_nails) i = Some (x, y)
          \<and> \<bar>x - fst (perimeter_point (of_nat i * (4 / of_int num_nails)))\<bar> \<le> 6 / 10 ^ 7
          \<and> \<bar>y - snd (perimeter_point (of_nat i * (4 / of_int num_nails)))\<bar> \<le> 6 / 10 ^ 7
          \<and> current_pos_at (float_div 4 (of_int num_nails)) i < 4
          \<and> current_pos_at (float_div 4 (of_int num_nails)) i
              < current_pos_at (float_div 4 (of_int num_nails)) (Suc i)))
   \<and> (2 ^ 1024 - 2 ^ 970 \<le> num_nails \<longrightarrow> generate_square_nails num_nails = Inl OverflowError)
   \<and> generate_square_nails 4 = Inr [(0, 0), (1, 0), (1, 1), (0, 1)]"
proof (intro conjI impI allI)
  assume a: "4 \<le> num_nails" "num_nails < 2 ^ 1024 - 2 ^ 970"
  then have "float_of_int num_nails = Inr (fl64 (of_int num_nails))"
    by (intro float_of_int_in_range) simp_all
  with a(1) show "\<exists>nails. generate_square_nails num_nails = Inr nails
         \<and> length nails = nat num_nails
         \<and> (\<forall>p \<in> set nails. fst p = 0 \<or> fst p = 1 \<or> snd p = 0 \<or> snd p = 1)
         \<and> (\<forall>i < nat num_nails.
               nails ! i = square_nail (current_pos_at (float_div 4 (fl64 (of_int num_nails))) i)
               \<and> current_pos_at (float_div 4 (fl64 (of_int num_nails))) i
                   \<le> current_pos_at (float_div 4 (fl64 (of_int num_nails))) (Suc i))"
    by (rule square_layout_core)
next
  fix i
  assume a: "4 \<le> num_nails" "num_nails \<le> 2 ^ 25" and i: "i < nat num_nails"
  let ?p = "current_pos_at (float_div 4 (of_int num_nails)) i"
  have "num_nails \<le> 2 ^ 53" using a(2) by simp
  with a(1) have n: "nail_of (generate_square_nails num_nails) i = Some (square_nail ?p)"
    using i by (rule nail_of_square)
  note e = nail_near_ideal[OF a i]
  note p = loop_position(2,5)[OF a i]
  have "nail_of (generate_square_nails num_nails) i = Some (fst (square_nail ?p), snd (square_nail ?p))"
    using n by simp
  with e p show "\<exists>x y.
          nail_of (generate_square_nails num_nails) i = Some (x, y)
          \<and> \<bar>x - fst (perimeter_point (of_nat i * (4 / of_int num_nails)))\<bar> \<le> 6 / 10 ^ 7
          \<and> \<bar>y - snd (perimeter_point (of_nat i * (4 / of_int num_nails)))\<bar> \<le> 6 / 10 ^ 7
          \<and> current_pos_at (float_div 4 (of_int num_nails)) i < 4
          \<and> current_pos_at (float_div 4 (of_int num_nails)) i
              < current_pos_at (float_div 4 (of_int num_nails)) (Suc i)"
    by blast
next
  assume a: "2 ^ 1024 - 2 ^ 970 \<le> num_nails"
  have "(4::int) \<le> 2 ^ 1024 - 2 ^ 970" by simp
  with a have "\<not> num_nails < 4" by linarith
  then show "generate_square_nails num_nails = Inl OverflowError"
    using float_of_int_overflow[OF a] by (simp add: generate_square_nails_def)
next
  show "generate_square_nails 4 = Inr [(0, 0), (1, 0), (1, 1), (0, 1)]" by (rule four_nails)
qed

theorem square_nails_layout_witness:
  "(4::int) \<le> 4 \<and> (4::int) < 2 ^ 1024 - 2 ^ 970 \<and> (4::int) \<le> 2 ^ 25 \<and> (1::nat) < nat 4
   \<and> (\<exists>nails. generate_square_nails 4 = Inr nails \<and> length nails = nat 4
         \<and> (\<forall>p \<in> set nails. fst p = 0 \<or> fst p = 1 \<or> snd p = 0 \<or> snd p = 1)
         \<and> (\<forall>i < nat 4.
               nails ! i = square_nail (current_pos_at (float_div 4 (fl64 (of_int 4))) i)
               \<and> current_pos_at (float_div 4 (fl64 (of_int 4))) i
                   \<le> current_pos_at (float_div 4 (fl64 (of_int 4))) (Suc i)))
   \<and> (\<exists>x y.
          nail_of (generate_square_nails 4) 1 = Some (x, y)
          \<and> \<bar>x - fst (perimeter_point (of_nat 1 * (4 / of_int 4)))\<bar> \<le> 6 / 10 ^ 7
          \<and> \<bar>y - snd (perimeter_point (of_nat 1 * (4 / of_int 4)))\<bar> \<le> 6 / 10 ^ 7
          \<and> current_pos_at (float_div 4 (of_int 4)) 1 < 4
          \<and> current_pos_at (float_div 4 (of_int 4)) 1
              < current_pos_at (float_div 4 (of_int 4)) (Suc 1))
   \<and> generate_square_nails 4 = Inr [(0, 0), (1, 0), (1, 1), (0, 1)]"
proof -
  have a: "(4::int) \<le> 4" by simp
  have b: "(4::int) < 2 ^ 1024 - 2 ^ 970" by simp
  have c: "(4::int) \<le> 2 ^ 25" by simp
  have d: "(1::nat) < nat 4" by simp
  note t = square_nails_layout[of 4]
  from t a b have p1: "\<exists>nails. generate_square_nails 4 = Inr nails \<and> length nails = nat 4
         \<and> (\<forall>p \<in> set nails. fst p = 0 \<or> fst p = 1 \<or> snd p = 0 \<or> snd p = 1)
         \<and> (\<forall>i < nat 4.
               nails ! i = square_nail (current_pos_at (float_div 4 (fl64 (of_int 4))) i)
               \<and> current_pos_at (float_div 4 (fl64 (of_int 4))) i
                   \<le> current_pos_at (float_div 4 (fl64 (of_int 4))) (Suc i))" by blast
  from t a c have "\<forall>i < nat 4. \<exists>x y.
          nail_of (generate_square_nails 4) i = Some (x, y)
          \<and> \<bar>x - fst (perimeter_point (of_nat i * (4 / of_int 4)))\<bar> \<le> 6 / 10 ^ 7
          \<and> \<bar>y - snd (perimeter_point (of_nat i * (4 / of_int 4)))\<bar> \<le> 6 / 10 ^ 7
          \<and> current_pos_at (float_div 4 (of_int 4)) i < 4
          \<and> current_pos_at (float_div 4 (of_int 4)) i
              < current_pos_at (float_div 4 (of_int 4)) (Suc i)" by blast
  then have "(1::nat) < nat 4 \<longrightarrow> (\<exists>x y.
          nail_of (generate_square_nails 4) 1 = Some (x, y)
          \<and> \<bar>x - fst (perimeter_point (of_nat 1 * (4 / of_int 4)))\<bar> \<le> 6 / 10 ^ 7
          \<and> \<bar>y - snd (perimeter_point (of_nat 1 * (4 / of_int 4)))\<bar> \<le> 6 / 10 ^ 7
          \<and> current_pos_at (float_div 4 (of_int 4)) 1 < 4
          \<and> current_pos_at (float_div 4 (of_int 4)) 1
              < current_pos_at (float_div 4 (of_int 4)) (Suc 1))" by (rule spec)
  with d have p2: "\<exists>x y.
          nail_of (generate_square_nails 4) 1 = Some (x, y)
          \<and> \<bar>x - fst (perimeter_point (of_nat 1 * (4 / of_int 4)))\<bar> \<le> 6 / 10 ^ 7
          \<and> \<bar>y - snd (perimeter_point (of_nat 1 * (4 / of_int 4)))\<bar> \<le> 6 / 10 ^ 7
          \<and> current_pos_at (float_div 4 (of_int 4)) 1 < 4
          \<and> current_pos_at (float_div 4 (of_int 4)) 1
              < current_pos_at (float_div 4 (of_int 4)) (Suc 1)" by (rule mp[rotated])
  from t have p3: "generate_square_nails 4 = Inr [(0, 0), (1, 0), (1, 1), (0, 1)]" by blast
  show ?thesis by (intro conjI a b c d p1 p2 p3)
qed


text \<open>
  C3, as the code has it. The claim fails at 4608 nails, index 9. The closed-form
  position \<open>9 * 4 / 4608\<close> is \<open>1/128 = 0.0078125\<close> exactly, a tie that
  \<^verbatim>\<open>round\<close> takes to the even decimal 0.007812; nine rounded additions of the float
  nearest to \<open>4/4608\<close> give a position one unit in the last place above \<open>1/128\<close>, which
  rounds to 0.007813. The two decimals are different floats.
\<close>

theorem accumulated_nail_differs:
  "nail_of (generate_square_nails 4608) 9 = Some (fl64 (7813 / 1000000), 0)
   \<and> closed_form_nail 4608 9 = (fl64 (7812 / 1000000), 0)
   \<and> fl64 (7813 / 1000000) \<noteq> fl64 (7812 / 1000000)"
proof -
  have f: "float_of_int 4608 = Inr 4608" using float_of_int_small[of 4608] by simp
  have g: "generate_square_nails 4608 = Inr (square_loop (float_div 4 4608) (nat 4608) 0)"
    by (simp add: generate_square_nails_def f)
  have "(9::nat) < nat 4608" by simp
  from square_loop_nth[OF this, of "float_div 4 4608" 0]
  have "square_loop (float_div 4 4608) (nat 4608) 0 ! 9 = square_nail (current_pos_at (float_div 4 4608) 9)"
    by simp
  then have "square_loop (float_div 4 4608) (nat 4608) 0 ! 9 = (fl64 (7813 / 1000000), 0)"
    by (simp only: drift_4608_9 drifted_nail)
  then have "nail_of (generate_square_nails 4608) 9 = Some (fl64 (7813 / 1000000), 0)"
    by (simp add: nail_of_def g length_square_loop)
  with closed_nail rounded_differ show ?thesis by blast
qed

text \<open>
  C3, amended. Let the count be at least 4 and \<open>i\<close> an index below it. If the count is
  held exactly by a float and every multiple \<open>j * 4 / count\<close> up to index \<open>i\<close> is a float
  as well (as for a count that is a power of two), then no addition of the loop rounds,
  and point \<open>i\<close> of the layout is the point of the closed form. For any count up to
  \<open>2 ^ 25\<close> the two points are close: each coordinate of either is the float of a decimal
  with six places, \<open>k / 10 ^ 6\<close> against \<open>k' / 10 ^ 6\<close>, and \<open>k\<close> and \<open>k'\<close> differ by at
  most one.
\<close>

theorem accumulation_matches_closed_form:
  assumes "4 \<le> count" "i < nat count"
  shows "(float_of_int count = Inr (of_int count) \<longrightarrow>
            (\<forall>j \<le> i. fl64 (of_int (int j * 4) / of_int count) = of_int (int j * 4) / of_int count) \<longrightarrow>
            nail_of (generate_square_nails count) i = Some (closed_form_nail count i))
         \<and> (count \<le> 2 ^ 25 \<longrightarrow>
            (\<exists>k l k' l'.
                nail_of (generate_square_nails count) i
                  = Some (fl64 (of_int k / 10 ^ 6), fl64 (of_int l / 10 ^ 6))
                \<and> closed_form_nail count i = (fl64 (of_int k' / 10 ^ 6), fl64 (of_int l' / 10 ^ 6))
                \<and> \<bar>k - k'\<bar> \<le> 1 \<and> \<bar>l - l'\<bar> \<le> 1))"
proof (intro conjI impI)
  assume f: "float_of_int count = Inr (of_int count)"
    and e: "\<forall>j \<le> i. fl64 (of_int (int j * 4) / of_int count) = of_int (int j * 4) / of_int count"
  let ?s = "float_div 4 (of_int count)"
  let ?q = "of_int (int i * 4) / (of_int count :: rat)"
  have g: "generate_square_nails count = Inr (square_loop ?s (nat count) 0)"
    using assms(1) f by (simp add: generate_square_nails_def)
  have nth: "square_loop ?s (nat count) 0 ! i = square_nail (current_pos_at ?s i)"
    using square_loop_nth[OF assms(2), of ?s 0] by simp
  have "0 < count" using assms(1) by simp
  then have pos: "current_pos_at ?s i = ?q"
    using e by (rule exact_positions) simp
  have "fl64 ?q = ?q" using e by blast
  then have cf: "closed_form_position count i = float_mod ?q 4"
    by (simp add: closed_form_position_def)
  have "square_nail ?q = closed_form_nail count i"
    by (rule square_nail_closed) (simp add: cf)
  then show "nail_of (generate_square_nails count) i = Some (closed_form_nail count i)"
    using assms(2) by (simp add: nail_of_def g length_square_loop nth pos)
next
  assume c: "count \<le> 2 ^ 25"
  then have "count \<le> 2 ^ 53" by simp
  with assms(1) have n: "nail_of (generate_square_nails count) i
      = Some (square_nail (current_pos_at (float_div 4 (of_int count)) i))"
    using assms(2) by (rule nail_of_square)
  from nails_one_unit_apart[OF assms(1) c assms(2)]
  show "\<exists>k l k' l'.
          nail_of (generate_square_nails count) i
            = Some (fl64 (of_int k / 10 ^ 6), fl64 (of_int l / 10 ^ 6))
          \<and> closed_form_nail count i = (fl64 (of_int k' / 10 ^ 6), fl64 (of_int l' / 10 ^ 6))
          \<and> \<bar>k - k'\<bar> \<le> 1 \<and> \<bar>l - l'\<bar> \<le> 1"
    unfolding n by (simp only: option.inject)
qed

theorem accumulation_matches_closed_form_witness:
  "(4::int) \<le> 8 \<and> 3 < nat 8 \<and> float_of_int 8 = Inr (of_int 8) \<and> (8::int) \<le> 2 ^ 25
   \<and> nail_of (generate_square_nails 8) 3 = Some (closed_form_nail 8 3)
   \<and> closed_form_nail 8 3 = (1, 1 / 2)
   \<and> (\<exists>k l k' l'.
         nail_of (generate_square_nails 8) 3
           = Some (fl64 (of_int k / 10 ^ 6), fl64 (of_int l / 10 ^ 6))
         \<and> closed_form_nail 8 3 = (fl64 (of_int k' / 10 ^ 6), fl64 (of_int l' / 10 ^ 6))
         \<and> \<bar>k - k'\<bar> \<le> 1 \<and> \<bar>l - l'\<bar> \<le> 1)"
proof -
  have a: "(4::int) \<le> 8" by simp
  have b: "3 < nat 8" by simp
  have c: "(8::int) \<le> 2 ^ 25" by simp
  have f: "float_of_int 8 = Inr (of_int 8)" using float_of_int_small[of 8] by simp
  have e: "\<forall>j \<le> 3. fl64 (of_int (int j * 4) / of_int 8) = of_int (int j * 4) / of_int 8"
  proof (intro allI impI)
    fix j :: nat assume "j \<le> 3"
    then consider "j = 0" | "j = 1" | "j = 2" | "j = 3" by linarith
    then show "fl64 (of_int (int j * 4) / of_int 8) = of_int (int j * 4) / of_int 8"
      by cases (simp_all add: fl64_zero fl64_one half_exact)
  qed
  have m: "float_mod (3 / 2) 4 = 3 / 2" by (simp add: float_mod_small)
  have r: "py_round (1 / 2) 6 = 1 / 2" by (simp add: py_round_def round_half_even_def half_exact)
  have v: "closed_form_nail 8 3 = (1, 1 / 2)"
    by (simp add: closed_form_nail_def closed_form_xy_def closed_form_position_def half_exact m float_sub_def r py_round_one)
  note t = accumulation_matches_closed_form[OF a b]
  from t f e have p1: "nail_of (generate_square_nails 8) 3 = Some (closed_form_nail 8 3)" by blast
  from t c have p2: "\<exists>k l k' l'.
         nail_of (generate_square_nails 8) 3
           = Some (fl64 (of_int k / 10 ^ 6), fl64 (of_int l / 10 ^ 6))
         \<and> closed_form_nail 8 3 = (fl64 (of_int k' / 10 ^ 6), fl64 (of_int l' / 10 ^ 6))
         \<and> \<bar>k - k'\<bar> \<le> 1 \<and> \<bar>l - l'\<bar> \<le> 1" by blast
  show ?thesis by (intro conjI a b c f p1 v p2)
qed







subsection \<open>The round trip through a file\<close>

text \<open>The square of 400000 nails: the spacing, the position of round 1 and the rounded
  coordinate are all the float nearest to 0.00001.\<close>

lemma s400: "float_div 4 400000 = 5902958103587057 / 590295810358705651712"
  unfolding float_div_def by code_simp

lemma a400: "float_add 0 (5902958103587057 / 590295810358705651712) = 5902958103587057 / 590295810358705651712"
  unfolding float_add_def by code_simp

lemma r400: "py_round (5902958103587057 / 590295810358705651712) 6 = 5902958103587057 / 590295810358705651712"
  unfolding py_round_def by code_simp

lemma d400: "fl64 (1 / 100000) = 5902958103587057 / 590295810358705651712"
  by code_simp


text \<open>
  C8, at a failing input. Nail 1 of the square of 400000 nails is \<open>(0.00001, 0)\<close>.
  Line 101 writes its first coordinate as Python prints that float, \<^verbatim>\<open>1e-05\<close>; a YAML 1.1
  loader takes a number without a decimal point and with an exponent for a string, so
  the file loads with the entry \<^verbatim>\<open>['1e-05', 0.0]\<close>. On that value the load ends in an
  uncaught TypeError, whatever nails follow: no layout comes back from the file. The
  printing of floats and the reading of YAML scalars are library code; the statement
  below holds the two halves that are code of the repository.
\<close>

theorem exponent_text_breaks_round_trip:
  "nail_of (generate_square_nails 400000) 1 = Some (fl64 (1 / 100000), 0)
   \<and> load_thread_art
       (Parsed (document
          (PyList (PyList [Atom (PyFloat (Finite 0)), Atom (PyFloat (Finite 0))]
                   # PyList [Atom (PyStr ''1e-05''), Atom (PyFloat (Finite 0))] # rest))
          (PyList [])))
     = Uncaught TypeError"
proof -
  have f: "float_of_int 400000 = Inr 400000" using float_of_int_small[of 400000] by simp
  have g: "generate_square_nails 400000 = Inr (square_loop (float_div 4 400000) (nat 400000) 0)"
    by (simp add: generate_square_nails_def f)
  have "(1::nat) < nat 400000" by simp
  from square_loop_nth[OF this, of "float_div 4 400000" 0]
  have "square_loop (float_div 4 400000) (nat 400000) 0 ! 1 = square_nail (current_pos_at (float_div 4 400000) 1)"
    by simp
  also have "\<dots> = square_nail (5902958103587057 / 590295810358705651712)"
    by (simp add: s400 a400)
  also have "\<dots> = (5902958103587057 / 590295810358705651712, 0)"
    by (simp add: square_nail_def square_xy_def float_mod_small r400 py_round_zero)
  also have "\<dots> = (fl64 (1 / 100000), 0)" by (simp only: d400)
  finally have "nail_of (generate_square_nails 400000) 1 = Some (fl64 (1 / 100000), 0)"
    by (simp add: nail_of_def g length_square_loop)
  moreover have "load_thread_art
       (Parsed (document
          (PyList (PyList [Atom (PyFloat (Finite 0)), Atom (PyFloat (Finite 0))]
                   # PyList [Atom (PyStr ''1e-05''), Atom (PyFloat (Finite 0))] # rest))
          (PyList [])))
     = Uncaught TypeError"
    by (simp add: load_thread_art_def load_body_def get_fields_document validate_def
        check_nail_def between_0_1_def)
  ultimately show ?thesis by blast
qed

end
